theory Spec2Isabelle
  imports Main
begin

section \<open>Primitives consumed by the sampling core\<close>

text \<open>
  The sampling classes of \<^verbatim>\<open>csa_sampling_strategy.hpp\<close> are built on the bit-packed
  integer vector, the bit vector with its rank and select supports, the wavelet tree and
  the inverse-permutation support. All lengths and values are \<^verbatim>\<open>size_type\<close>
  (64 bit); they are modelled in \<^typ>\<open>nat\<close>: every value the code computes is bounded by
  the length \<open>n\<close> of the suffix array plus the sample density, which is assumed to stay
  below \<open>2^64\<close>.

  An index outside of a vector is undefined behaviour in the source; in the model every
  read and write by index returns \<^typ>\<open>'a option\<close>, and \<open>None\<close> stands for such an access.
\<close>

type_synonym bit_vector = "bool list"

record int_vector =
  iv_width :: nat
  iv_data :: "nat list"

text \<open>
  Modelled from the spec: \<^verbatim>\<open>bits::hi\<close> is declared in \<^verbatim>\<open>sdsl/bits.hpp\<close>, which is
  not part of the sources at hand. It is the position of the most significant set bit
  of its argument, and 0 for 0, so that \<open>hi n + 1\<close> bits hold every value up to \<open>n\<close>.
\<close>

fun hi :: "nat \<Rightarrow> nat" where
  "hi n = (if n < 2 then 0 else Suc (hi (n div 2)))"

declare hi.simps [simp del]

text \<open>
  Modelled from the spec: the integer vector \<^verbatim>\<open>int_vector\<close> of
  \<^verbatim>\<open>sdsl/int_vector.hpp\<close>, fixed-width unsigned integers with random access. A value
  written to it is cut to the vector's width. \<open>iv_make w k\<close> is \<^verbatim>\<open>width(w); resize(k)\<close>
  on an empty vector (the new entries are taken to be 0).
\<close>

definition iv_make :: "nat \<Rightarrow> nat \<Rightarrow> int_vector" where
  "iv_make w k = \<lparr>iv_width = w, iv_data = replicate k 0\<rparr>"

definition iv_size :: "int_vector \<Rightarrow> nat" where
  "iv_size v = length (iv_data v)"

definition iv_get :: "int_vector \<Rightarrow> nat \<Rightarrow> nat option" where
  "iv_get v i = (if i < length (iv_data v) then Some (iv_data v ! i) else None)"

definition iv_set :: "int_vector \<Rightarrow> nat \<Rightarrow> nat \<Rightarrow> int_vector option" where
  "iv_set v i x =
     (if i < length (iv_data v)
      then Some (v\<lparr>iv_data := (iv_data v)[i := x mod 2 ^ iv_width v]\<rparr>)
      else None)"

definition bv_get :: "bit_vector \<Rightarrow> nat \<Rightarrow> bool option" where
  "bv_get bv i = (if i < length bv then Some (bv ! i) else None)"

definition bv_set :: "bit_vector \<Rightarrow> nat \<Rightarrow> bit_vector option" where
  "bv_set bv i = (if i < length bv then Some (bv[i := True]) else None)"

text \<open>
  Modelled from the spec: the rank and select supports of a bit vector.
  \<open>rank1 bv i\<close> is the number of ones in \<open>[0, i)\<close>, defined for \<open>i \<le> length bv\<close>;
  \<open>select1 bv k\<close> is the position of the \<open>k\<close>-th one, counted from 1.
\<close>

definition ones :: "bit_vector \<Rightarrow> nat list" where
  "ones bv = filter (\<lambda>i. bv ! i) [0..<length bv]"

definition rank1 :: "bit_vector \<Rightarrow> nat \<Rightarrow> nat option" where
  "rank1 bv i = (if i \<le> length bv then Some (length (filter (\<lambda>j. bv ! j) [0..<i])) else None)"

definition select1 :: "bit_vector \<Rightarrow> nat \<Rightarrow> nat option" where
  "select1 bv k = (if 0 < k \<and> k \<le> length (ones bv) then Some (ones bv ! (k - 1)) else None)"

definition popcount :: "bit_vector \<Rightarrow> nat" where
  "popcount bv = length (filter (\<lambda>b. b) bv)"

text \<open>A counted loop \<^verbatim>\<open>for (i = 0; i < n; ++i)\<close> whose body may fail.\<close>

fun ofold :: "('a \<Rightarrow> 's \<Rightarrow> 's option) \<Rightarrow> 'a list \<Rightarrow> 's \<Rightarrow> 's option" where
  "ofold f [] s = Some s"
| "ofold f (x # xs) s = (case f x s of None \<Rightarrow> None | Some s' \<Rightarrow> ofold f xs s')"

text \<open>
  The suffix array is a permutation of \<open>[0, n)\<close>; the inverse suffix array is its
  inverse permutation.
\<close>

definition is_permutation :: "nat list \<Rightarrow> bool" where
  "is_permutation xs \<longleftrightarrow> distinct xs \<and> list_all (\<lambda>x. x < length xs) xs"

definition inverse_of :: "nat list \<Rightarrow> nat list \<Rightarrow> bool" where
  "inverse_of SA ISA \<longleftrightarrow>
     length ISA = length SA \<and> list_all (\<lambda>i. ISA ! (SA ! i) = i) [0..<length SA]"

section \<open>Suffix-order sampling\<close>

text \<open>
  The constructor of \<^verbatim>\<open>_sa_order_sampling\<close>: the loop state is
  \<open>(cnt_mod, cnt_sum, samples)\<close>.
\<close>

definition sa_order_step ::
  "nat \<Rightarrow> nat list \<Rightarrow> nat \<Rightarrow> nat \<times> nat \<times> int_vector \<Rightarrow> (nat \<times> nat \<times> int_vector) option" where
  "sa_order_step sample_dens sa_buf i = (\<lambda>(cnt_mod, cnt_sum, smp).
     let sa = sa_buf ! i in
     if sample_dens = cnt_mod
     then (case iv_set smp cnt_sum sa of
             None \<Rightarrow> None
           | Some smp' \<Rightarrow> Some (Suc 0, Suc cnt_sum, smp'))
     else Some (Suc cnt_mod, cnt_sum, smp))"

definition sa_order_sampling :: "nat \<Rightarrow> nat list \<Rightarrow> int_vector option" where
  "sa_order_sampling sample_dens sa_buf =
     (let n = length sa_buf;
          smp = iv_make (hi n + 1) ((n + sample_dens - 1) div sample_dens)
      in map_option (\<lambda>(cnt_mod, cnt_sum, smp'). smp')
           (ofold (sa_order_step sample_dens sa_buf) [0..<n] (sample_dens, 0, smp)))"

definition sa_order_is_sampled :: "nat \<Rightarrow> nat \<Rightarrow> bool" where
  "sa_order_is_sampled sample_dens i \<longleftrightarrow> 0 = i mod sample_dens"

definition sa_order_get :: "nat \<Rightarrow> int_vector \<Rightarrow> nat \<Rightarrow> nat option" where
  "sa_order_get sample_dens smp i = iv_get smp (i div sample_dens)"

section \<open>Text-order sampling\<close>

text \<open>
  \<^verbatim>\<open>_text_order_sampling\<close> owns the condensed samples (its base class) and the bit
  vector \<^verbatim>\<open>m_marked\<close>; its rank support \<^verbatim>\<open>m_rank_marked\<close> is bound to
  \<^verbatim>\<open>m_marked\<close> by the constructor, by copy and by load, so it is read as
  \<^const>\<open>rank1\<close> of the structure's own bit vector. The conversion of the temporary
  plain bit vector into the compressed type \<^verbatim>\<open>t_bv\<close> keeps the bits.
\<close>

record text_order_sampling =
  tos_samples :: int_vector
  tos_marked :: bit_vector

definition text_order_step ::
  "nat \<Rightarrow> nat list \<Rightarrow> nat \<Rightarrow> nat \<times> bit_vector \<times> int_vector
     \<Rightarrow> (nat \<times> bit_vector \<times> int_vector) option" where
  "text_order_step sample_dens sa_buf i = (\<lambda>(sa_cnt, marked, smp).
     let sa = sa_buf ! i in
     if 0 = sa mod sample_dens
     then (case bv_set marked i of
             None \<Rightarrow> None
           | Some marked' \<Rightarrow>
               (case iv_set smp sa_cnt (sa div sample_dens) of
                  None \<Rightarrow> None
                | Some smp' \<Rightarrow> Some (Suc sa_cnt, marked', smp')))
     else Some (sa_cnt, marked, smp))"

definition text_order_build :: "nat \<Rightarrow> nat list \<Rightarrow> text_order_sampling option" where
  "text_order_build sample_dens sa_buf =
     (let n = length sa_buf;
          marked = replicate n False;
          smp = iv_make (hi (n div sample_dens) + 1) ((n + sample_dens - 1) div sample_dens)
      in map_option (\<lambda>(sa_cnt, marked', smp'). \<lparr>tos_samples = smp', tos_marked = marked'\<rparr>)
           (ofold (text_order_step sample_dens sa_buf) [0..<n] (0, marked, smp)))"

definition text_order_is_sampled :: "text_order_sampling \<Rightarrow> nat \<Rightarrow> bool option" where
  "text_order_is_sampled X i = bv_get (tos_marked X) i"

definition text_order_get :: "nat \<Rightarrow> text_order_sampling \<Rightarrow> nat \<Rightarrow> nat option" where
  "text_order_get sample_dens X i =
     (case rank1 (tos_marked X) i of
        None \<Rightarrow> None
      | Some r \<Rightarrow> map_option (\<lambda>s. s * sample_dens) (iv_get (tos_samples X) r))"

definition condensed_sa :: "text_order_sampling \<Rightarrow> nat \<Rightarrow> nat option" where
  "condensed_sa X i = iv_get (tos_samples X) i"

section \<open>BWT-driven sampling\<close>

text \<open>
  \<^verbatim>\<open>_bwt_sampling\<close>: the BWT is a sequence over the character type of the index, and the
  sample characters are \<open>Some cs\<close> when \<^verbatim>\<open>load_from_cache\<close> finds the cached vector
  and \<open>None\<close> when it does not. The first loop marks, the second loop stores the samples.
\<close>

record bwt_sampling =
  bws_samples :: int_vector
  bws_marked :: bit_vector

definition bwt_char_map :: "'c list option \<Rightarrow> 'c set" where
  "bwt_char_map sample_char = (case sample_char of None \<Rightarrow> {} | Some cs \<Rightarrow> set cs)"

definition bwt_mark_step ::
  "nat \<Rightarrow> nat list \<Rightarrow> 'c list \<Rightarrow> 'c set \<Rightarrow> nat \<Rightarrow> nat \<times> bit_vector
     \<Rightarrow> (nat \<times> bit_vector) option" where
  "bwt_mark_step sample_dens sa_buf bwt_buf char_map i = (\<lambda>(sa_cnt, marked).
     let sa = sa_buf ! i in
     if i < length bwt_buf
     then (let bwt = bwt_buf ! i in
           if 0 = sa mod sample_dens
           then map_option (\<lambda>marked'. (Suc sa_cnt, marked')) (bv_set marked i)
           else if bwt \<in> char_map
           then map_option (\<lambda>marked'. (Suc sa_cnt, marked')) (bv_set marked i)
           else Some (sa_cnt, marked))
     else None)"

definition bwt_fill_step ::
  "nat list \<Rightarrow> bit_vector \<Rightarrow> nat \<Rightarrow> nat \<times> int_vector \<Rightarrow> (nat \<times> int_vector) option" where
  "bwt_fill_step sa_buf marked i = (\<lambda>(sa_cnt, smp).
     let sa = sa_buf ! i in
     case bv_get marked i of
       None \<Rightarrow> None
     | Some True \<Rightarrow> map_option (\<lambda>smp'. (Suc sa_cnt, smp')) (iv_set smp sa_cnt sa)
     | Some False \<Rightarrow> Some (sa_cnt, smp))"

definition bwt_build ::
  "nat \<Rightarrow> nat list \<Rightarrow> 'c list \<Rightarrow> 'c list option \<Rightarrow> bwt_sampling option" where
  "bwt_build sample_dens sa_buf bwt_buf sample_char =
     (let n = length sa_buf;
          char_map = bwt_char_map sample_char
      in case ofold (bwt_mark_step sample_dens sa_buf bwt_buf char_map) [0..<n]
                (0, replicate n False) of
           None \<Rightarrow> None
         | Some (sa_cnt, marked) \<Rightarrow>
             map_option (\<lambda>(sa_cnt', smp). \<lparr>bws_samples = smp, bws_marked = marked\<rparr>)
               (ofold (bwt_fill_step sa_buf marked) [0..<n] (0, iv_make (hi n + 1) sa_cnt)))"

definition bwt_is_sampled :: "bwt_sampling \<Rightarrow> nat \<Rightarrow> bool option" where
  "bwt_is_sampled X i = bv_get (bws_marked X) i"

definition bwt_get :: "nat \<Rightarrow> bwt_sampling \<Rightarrow> nat \<Rightarrow> nat option" where
  "bwt_get sample_dens X i =
     (case rank1 (bws_marked X) i of
        None \<Rightarrow> None
      | Some r \<Rightarrow> map_option (\<lambda>s. s * sample_dens) (iv_get (bws_samples X) r))"

section \<open>Plain ISA sampling\<close>

text \<open>
  \<^verbatim>\<open>_isa_sampling\<close>: for \<open>n = 0\<close> the vector stays the empty default vector (of width
  64). The density is \<^verbatim>\<open>isa_sample_dens\<close>.
\<close>

definition isa_step :: "nat \<Rightarrow> nat list \<Rightarrow> nat \<Rightarrow> int_vector \<Rightarrow> int_vector option" where
  "isa_step sample_dens sa_buf i smp =
     (let sa = sa_buf ! i in
      if sa mod sample_dens = 0 then iv_set smp (sa div sample_dens) i else Some smp)"

definition isa_sampling :: "nat \<Rightarrow> nat list \<Rightarrow> int_vector option" where
  "isa_sampling sample_dens sa_buf =
     (let n = length sa_buf;
          smp = (if n \<ge> 1 then iv_make (hi n + 1) ((n - 1) div sample_dens + 1)
                 else iv_make 64 0)
      in case ofold (\<lambda>i v. iv_set v i 0) [0..<iv_size smp] smp of
           None \<Rightarrow> None
         | Some smp0 \<Rightarrow> ofold (isa_step sample_dens sa_buf) [0..<n] smp0)"

definition isa_get :: "nat \<Rightarrow> int_vector \<Rightarrow> nat \<Rightarrow> nat option" where
  "isa_get sample_dens smp i = iv_get smp (i div sample_dens)"

definition isa_sample_leq :: "nat \<Rightarrow> int_vector \<Rightarrow> nat \<Rightarrow> (nat \<times> nat) option" where
  "isa_sample_leq sample_dens smp i =
     (let ci = i div sample_dens
      in map_option (\<lambda>v. (v, ci * sample_dens)) (iv_get smp ci))"

definition isa_sample_qeq :: "nat \<Rightarrow> int_vector \<Rightarrow> nat \<Rightarrow> (nat \<times> nat) option" where
  "isa_sample_qeq sample_dens smp i =
     (if iv_size smp = 0 then None
      else let ci = (i div sample_dens + 1) mod iv_size smp
           in map_option (\<lambda>v. (v, ci * sample_dens)) (iv_get smp ci))"

section \<open>ISA support of the text-order sampling\<close>

text \<open>
  Modelled from the spec: the inverse-permutation support \<^verbatim>\<open>inv_perm_support\<close> of
  \<^verbatim>\<open>sdsl/inv_perm_support.hpp\<close>, which answers \<open>\<pi>\<^sup>-\<^sup>1(i)\<close> for the permutation
  \<open>\<pi>\<close> stored in the integer vector it points to.
\<close>

definition ip_get :: "int_vector \<Rightarrow> nat \<Rightarrow> nat option" where
  "ip_get perm i =
     (if i < iv_size perm then find (\<lambda>j. iv_data perm ! j = i) [0..<iv_size perm] else None)"

text \<open>
  \<^verbatim>\<open>_text_order_isa_sampling_support\<close> owns nothing but its two supports: the select
  support points to the bit vector \<^verbatim>\<open>marked\<close> of the SA sampling and the
  inverse-permutation support to its samples. The class asserts
  \<^verbatim>\<open>sa_sample_dens == isa_sample_dens\<close>, so a single density is passed.
\<close>

definition text_order_isa_get :: "nat \<Rightarrow> text_order_sampling \<Rightarrow> nat \<Rightarrow> nat option" where
  "text_order_isa_get sample_dens X i =
     (case ip_get (tos_samples X) (i div sample_dens) of
        None \<Rightarrow> None
      | Some r \<Rightarrow> select1 (tos_marked X) (r + 1))"

definition text_order_isa_sample_leq ::
  "nat \<Rightarrow> text_order_sampling \<Rightarrow> nat \<Rightarrow> (nat \<times> nat) option" where
  "text_order_isa_sample_leq sample_dens X i =
     (let ci = i div sample_dens
      in case ip_get (tos_samples X) ci of
           None \<Rightarrow> None
         | Some r \<Rightarrow> map_option (\<lambda>v. (v, ci * sample_dens)) (select1 (tos_marked X) (r + 1)))"

definition text_order_isa_sample_qeq ::
  "nat \<Rightarrow> text_order_sampling \<Rightarrow> nat \<Rightarrow> (nat \<times> nat) option" where
  "text_order_isa_sample_qeq sample_dens X i =
     (if iv_size (tos_samples X) = 0 then None
      else let ci = (i div sample_dens + 1) mod iv_size (tos_samples X)
           in case ip_get (tos_samples X) ci of
                None \<Rightarrow> None
              | Some r \<Rightarrow>
                  map_option (\<lambda>v. (v, ci * sample_dens)) (select1 (tos_marked X) (r + 1)))"

section \<open>Fuzzy sampling\<close>

text \<open>
  Modelled from the spec: the wavelet tree \<^verbatim>\<open>wt_int\<close> of \<^verbatim>\<open>sdsl/wt_int.hpp\<close> is read
  as the sequence it represents: \<open>wt_access\<close> is \<^verbatim>\<open>operator[]\<close>, and \<open>wt_select wt k c\<close>
  is \<^verbatim>\<open>select(k, c)\<close>, the position of the \<open>k\<close>-th occurrence of the symbol \<open>c\<close>,
  counted from 1. \<^verbatim>\<open>util::bit_compress\<close> shrinks the width of an integer vector to
  the bits of its largest entry and keeps the entries.
\<close>

type_synonym wt_int = "nat list"

definition wt_access :: "wt_int \<Rightarrow> nat \<Rightarrow> nat option" where
  "wt_access wt i = (if i < length wt then Some (wt ! i) else None)"

definition wt_select :: "wt_int \<Rightarrow> nat \<Rightarrow> nat \<Rightarrow> nat option" where
  "wt_select wt k c =
     (let ps = filter (\<lambda>i. wt ! i = c) [0..<length wt]
      in if 0 < k \<and> k \<le> length ps then Some (ps ! (k - 1)) else None)"

definition bit_compress :: "int_vector \<Rightarrow> int_vector" where
  "bit_compress v = v\<lparr>iv_width := hi (fold max (iv_data v) 0) + 1\<rparr>"

text \<open>
  The constructor of \<^verbatim>\<open>_fuzzy_sa_sampling\<close>. It reads the cached inverse suffix array
  (and has it constructed first when it is not cached), which is the argument \<open>isa_buf\<close>
  here. The record below holds the local variables of the block loop. \<open>marked_isa\<close> is
  indexed by text positions and \<open>marked_sa\<close> by suffix array indices.
\<close>

record fuzzy_state =
  fs_cnt :: nat
  fs_runs :: nat
  fs_min_prev_val :: nat
  fs_marked_isa :: bit_vector
  fs_marked_sa :: bit_vector
  fs_inv_perm :: int_vector

text \<open>The body of the inner loop over \<open>j\<close>; the state is \<open>(pos_min, pos_cnd)\<close>.\<close>

definition fuzzy_scan_step :: "nat list \<Rightarrow> nat \<Rightarrow> nat \<Rightarrow> nat \<Rightarrow> nat \<times> nat \<Rightarrow> nat \<times> nat" where
  "fuzzy_scan_step isa_buf n min_prev_val j = (\<lambda>(pos_min, pos_cnd).
     (if isa_buf ! j < isa_buf ! pos_min then j else pos_min,
      if isa_buf ! j \<ge> min_prev_val
      then (if pos_cnd = n then j
            else if isa_buf ! j < isa_buf ! pos_cnd then j else pos_cnd)
      else pos_cnd))"

definition fuzzy_scan :: "nat list \<Rightarrow> nat \<Rightarrow> nat \<Rightarrow> nat \<Rightarrow> nat \<Rightarrow> nat \<times> nat" where
  "fuzzy_scan isa_buf n sample_dens min_prev_val i =
     fold (fuzzy_scan_step isa_buf n min_prev_val) [i + 1..<min (i + sample_dens) n]
       (i, if isa_buf ! i \<ge> min_prev_val then i else n)"

text \<open>The body of the outer loop, for the block that starts at text position \<open>i\<close>.\<close>

definition fuzzy_block :: "nat list \<Rightarrow> nat \<Rightarrow> nat \<Rightarrow> nat \<Rightarrow> fuzzy_state \<Rightarrow> fuzzy_state option" where
  "fuzzy_block isa_buf n sample_dens i st =
     (let (pos_min, pos_cnd0) = fuzzy_scan isa_buf n sample_dens (fs_min_prev_val st) i;
          (pos_cnd, runs) = (if pos_cnd0 = n then (pos_min, fs_runs st + 1)
                             else (pos_cnd0, fs_runs st));
          min_prev_val = isa_buf ! pos_cnd
      in case bv_set (fs_marked_isa st) pos_cnd of
           None \<Rightarrow> None
         | Some marked_isa \<Rightarrow>
             (case iv_set (fs_inv_perm st) (fs_cnt st) min_prev_val of
                None \<Rightarrow> None
              | Some inv_perm \<Rightarrow>
                  (case bv_set (fs_marked_sa st) min_prev_val of
                     None \<Rightarrow> None
                   | Some marked_sa \<Rightarrow>
                       Some \<lparr>fs_cnt = fs_cnt st + 1, fs_runs = runs,
                             fs_min_prev_val = min_prev_val,
                             fs_marked_isa = marked_isa, fs_marked_sa = marked_sa,
                             fs_inv_perm = inv_perm\<rparr>)))"

text \<open>
  The outer loop \<^verbatim>\<open>for (i = 0; i < n; i += sample_dens)\<close>. With a density of 0 it does
  not end; \<open>None\<close> is the value of a run that does not return or that leaves a vector.
\<close>

partial_function (option) fuzzy_loop ::
  "nat list \<Rightarrow> nat \<Rightarrow> nat \<Rightarrow> nat \<Rightarrow> fuzzy_state \<Rightarrow> fuzzy_state option" where
  "fuzzy_loop isa_buf n sample_dens i st =
     (if i < n
      then Option.bind (fuzzy_block isa_buf n sample_dens i st)
             (\<lambda>st'. fuzzy_loop isa_buf n sample_dens (i + sample_dens) st')
      else Some st)"

declare fuzzy_loop.simps [code]

definition fuzzy_init :: "nat \<Rightarrow> nat \<Rightarrow> fuzzy_state" where
  "fuzzy_init n sample_dens =
     \<lparr>fs_cnt = 0, fs_runs = 1, fs_min_prev_val = 0,
      fs_marked_isa = replicate n False, fs_marked_sa = replicate n False,
      fs_inv_perm = iv_make (hi n + 1) ((n + sample_dens - 1) div sample_dens)\<rparr>"

text \<open>
  Names for what the block loop does, used to state its properties: the state after the
  first \<open>b\<close> rounds of the loop, the position \<open>pos_cnd\<close> that a round marks (after the
  fallback to \<open>pos_min\<close>), the position marked in block \<open>b\<close>, and whether block \<open>b\<close> had
  no position \<open>p\<close> with \<open>ISA[p] \<ge> min_prev_val\<close>.
\<close>

primrec fuzzy_iter :: "nat list \<Rightarrow> nat \<Rightarrow> nat \<Rightarrow> nat \<Rightarrow> fuzzy_state option" where
  "fuzzy_iter isa_buf n sample_dens 0 = Some (fuzzy_init n sample_dens)"
| "fuzzy_iter isa_buf n sample_dens (Suc b) =
     Option.bind (fuzzy_iter isa_buf n sample_dens b)
       (fuzzy_block isa_buf n sample_dens (b * sample_dens))"

definition fuzzy_chosen :: "nat list \<Rightarrow> nat \<Rightarrow> nat \<Rightarrow> nat \<Rightarrow> nat \<Rightarrow> nat" where
  "fuzzy_chosen isa_buf n sample_dens min_prev_val i =
     (let (pos_min, pos_cnd) = fuzzy_scan isa_buf n sample_dens min_prev_val i
      in if pos_cnd = n then pos_min else pos_cnd)"

definition fuzzy_pos :: "nat list \<Rightarrow> nat \<Rightarrow> nat \<Rightarrow> nat option" where
  "fuzzy_pos isa_buf sample_dens b =
     map_option (\<lambda>st. fuzzy_chosen isa_buf (length isa_buf) sample_dens (fs_min_prev_val st)
                        (b * sample_dens))
       (fuzzy_iter isa_buf (length isa_buf) sample_dens b)"

definition fuzzy_empty :: "nat list \<Rightarrow> nat \<Rightarrow> nat \<Rightarrow> bool" where
  "fuzzy_empty isa_buf sample_dens b =
     (case fuzzy_iter isa_buf (length isa_buf) sample_dens b of
        None \<Rightarrow> False
      | Some st \<Rightarrow>
          list_all (\<lambda>p. isa_buf ! p < fs_min_prev_val st)
            [b * sample_dens..<min (b * sample_dens + sample_dens) (length isa_buf)])"

definition fuzzy_empty_blocks :: "nat list \<Rightarrow> nat \<Rightarrow> nat" where
  "fuzzy_empty_blocks isa_buf sample_dens =
     length (filter (fuzzy_empty isa_buf sample_dens)
       [0..<(length isa_buf + sample_dens - 1) div sample_dens])"

definition fuzzy_runs :: "nat \<Rightarrow> nat list \<Rightarrow> nat option" where
  "fuzzy_runs sample_dens isa_buf =
     map_option fs_runs
       (fuzzy_loop isa_buf (length isa_buf) sample_dens 0 (fuzzy_init (length isa_buf) sample_dens))"

text \<open>
  The invariant of the block loop after \<open>b\<close> rounds, in terms of the list \<open>ps\<close> of the
  positions marked so far: one position in each block, the two bit vectors mark \<open>ps\<close> and
  the inverse suffix array values at \<open>ps\<close>, and \<open>inv_perm\<close> holds these values in block
  order.
\<close>

definition fuzzy_invariant :: "nat list \<Rightarrow> nat \<Rightarrow> nat \<Rightarrow> nat list \<Rightarrow> fuzzy_state \<Rightarrow> bool" where
  "fuzzy_invariant isa_buf sample_dens b ps st \<longleftrightarrow>
     length ps = b
     \<and> (\<forall>k<b. k * sample_dens \<le> ps ! k
              \<and> ps ! k < min (k * sample_dens + sample_dens) (length isa_buf))
     \<and> fs_cnt st = b
     \<and> fs_marked_isa st = map (\<lambda>p. p \<in> set ps) [0..<length isa_buf]
     \<and> fs_marked_sa st = map (\<lambda>v. v \<in> set (map (nth isa_buf) ps)) [0..<length isa_buf]
     \<and> iv_width (fs_inv_perm st) = hi (length isa_buf) + 1
     \<and> length (iv_data (fs_inv_perm st)) = (length isa_buf + sample_dens - 1) div sample_dens
     \<and> take b (iv_data (fs_inv_perm st)) = map (nth isa_buf) ps"

text \<open>
  A list of positions with one position in each block, and the sampling that the
  constructor builds when \<open>ps\<close> are the positions it marks.
\<close>

definition in_blocks :: "nat \<Rightarrow> nat \<Rightarrow> nat list \<Rightarrow> bool" where
  "in_blocks n sample_dens ps \<longleftrightarrow>
     length ps = (n + sample_dens - 1) div sample_dens
     \<and> (\<forall>k<length ps. k * sample_dens \<le> ps ! k \<and> ps ! k < min (k * sample_dens + sample_dens) n)"

text \<open>The second loop replaces every entry of \<open>inv_perm\<close> by its rank in \<open>marked_sa\<close>.\<close>

definition fuzzy_rank_step :: "bit_vector \<Rightarrow> nat \<Rightarrow> int_vector \<Rightarrow> int_vector option" where
  "fuzzy_rank_step marked_sa i inv_perm =
     (case iv_get inv_perm i of
        None \<Rightarrow> None
      | Some v \<Rightarrow> (case rank1 marked_sa v of None \<Rightarrow> None | Some r \<Rightarrow> iv_set inv_perm i r))"

record fuzzy_sa_sampling =
  fz_marked_sa :: bit_vector
  fz_marked_isa :: bit_vector
  fz_inv_perm :: wt_int

definition fuzzy_build :: "nat \<Rightarrow> nat list \<Rightarrow> fuzzy_sa_sampling option" where
  "fuzzy_build sample_dens isa_buf =
     (let n = length isa_buf
      in case fuzzy_loop isa_buf n sample_dens 0 (fuzzy_init n sample_dens) of
           None \<Rightarrow> None
         | Some st \<Rightarrow>
             (case ofold (fuzzy_rank_step (fs_marked_sa st)) [0..<iv_size (fs_inv_perm st)]
                     (fs_inv_perm st) of
                None \<Rightarrow> None
              | Some inv_perm \<Rightarrow>
                  Some \<lparr>fz_marked_sa = fs_marked_sa st, fz_marked_isa = fs_marked_isa st,
                        fz_inv_perm = iv_data (bit_compress inv_perm)\<rparr>))"

definition fuzzy_of_positions :: "nat list \<Rightarrow> nat list \<Rightarrow> fuzzy_sa_sampling" where
  "fuzzy_of_positions isa_buf ps =
     \<lparr>fz_marked_sa = map (\<lambda>v. v \<in> set (map (nth isa_buf) ps)) [0..<length isa_buf],
      fz_marked_isa = map (\<lambda>p. p \<in> set ps) [0..<length isa_buf],
      fz_inv_perm = map (\<lambda>x. length (filter (\<lambda>j. j \<in> set (map (nth isa_buf) ps)) [0..<x]))
                      (map (nth isa_buf) ps)\<rparr>"

definition fuzzy_is_sampled :: "fuzzy_sa_sampling \<Rightarrow> nat \<Rightarrow> bool option" where
  "fuzzy_is_sampled X i = bv_get (fz_marked_sa X) i"

definition fuzzy_get :: "fuzzy_sa_sampling \<Rightarrow> nat \<Rightarrow> nat option" where
  "fuzzy_get X i =
     (case rank1 (fz_marked_sa X) i of
        None \<Rightarrow> None
      | Some r \<Rightarrow>
          (case wt_select (fz_inv_perm X) 1 r of
             None \<Rightarrow> None
           | Some b \<Rightarrow> select1 (fz_marked_isa X) (b + 1)))"

definition fuzzy_inv :: "fuzzy_sa_sampling \<Rightarrow> nat \<Rightarrow> nat option" where
  "fuzzy_inv X i = wt_access (fz_inv_perm X) i"

definition fuzzy_size :: "fuzzy_sa_sampling \<Rightarrow> nat" where
  "fuzzy_size X = length (fz_inv_perm X)"

section \<open>ISA support of the fuzzy sampling\<close>

text \<open>
  \<^verbatim>\<open>_fuzzy_isa_sampling_support\<close> keeps a pointer to the fuzzy SA sampling and a select
  support on its \<^verbatim>\<open>marked_sa\<close>.
\<close>

definition fuzzy_isa_get :: "fuzzy_sa_sampling \<Rightarrow> nat \<Rightarrow> nat option" where
  "fuzzy_isa_get X i = fuzzy_inv X i"

definition fuzzy_isa_result :: "fuzzy_sa_sampling \<Rightarrow> nat \<Rightarrow> nat \<Rightarrow> (nat \<times> nat) option" where
  "fuzzy_isa_result X ci j =
     (case fuzzy_inv X ci of
        None \<Rightarrow> None
      | Some r \<Rightarrow> map_option (\<lambda>v. (v, j)) (select1 (fz_marked_sa X) (r + 1)))"

definition fuzzy_isa_sample_leq ::
  "nat \<Rightarrow> fuzzy_sa_sampling \<Rightarrow> nat \<Rightarrow> (nat \<times> nat) option" where
  "fuzzy_isa_sample_leq sample_dens X i =
     (let ci = i div sample_dens
      in case select1 (fz_marked_isa X) (ci + 1) of
           None \<Rightarrow> None
         | Some j \<Rightarrow>
             if j > i
             then (let ci' = (if ci > 0 then ci - 1 else fuzzy_size X - 1)
                   in case select1 (fz_marked_isa X) (ci' + 1) of
                        None \<Rightarrow> None
                      | Some j' \<Rightarrow> fuzzy_isa_result X ci' j')
             else fuzzy_isa_result X ci j)"

definition fuzzy_isa_sample_qeq ::
  "nat \<Rightarrow> fuzzy_sa_sampling \<Rightarrow> nat \<Rightarrow> (nat \<times> nat) option" where
  "fuzzy_isa_sample_qeq sample_dens X i =
     (let ci = i div sample_dens
      in case select1 (fz_marked_isa X) (ci + 1) of
           None \<Rightarrow> None
         | Some j \<Rightarrow>
             if j < i
             then (let ci' = (if ci < fuzzy_size X - 1 then ci + 1 else 0)
                   in case select1 (fz_marked_isa X) (ci' + 1) of
                        None \<Rightarrow> None
                      | Some j' \<Rightarrow> fuzzy_isa_result X ci' j')
             else fuzzy_isa_result X ci j)"

section \<open>Serialization\<close>

text \<open>
  The sampling classes write and read their members in a fixed order; the byte formats of
  the members belong to the primitives, whose sources are not at hand. They are taken as
  parameters: for each primitive a function that gives the bytes it writes and a function
  that reads a value from the front of a stream and returns it with the rest of the
  stream (\<open>None\<close> on a malformed stream). A rank or select support answers from the bit
  vector it is bound to: the bytes it writes are determined by that vector, and its
  \<^verbatim>\<open>load\<close> only consumes them, after which \<^verbatim>\<open>set_vector\<close> binds the support to
  the loaded vector. \<^verbatim>\<open>serialize\<close> returns the number of bytes written; the model
  returns the bytes.
\<close>

record 'b primitives =
  iv_serialize :: "int_vector \<Rightarrow> 'b list"
  iv_load :: "'b list \<Rightarrow> (int_vector \<times> 'b list) option"
  bv_serialize :: "bit_vector \<Rightarrow> 'b list"
  bv_load :: "'b list \<Rightarrow> (bit_vector \<times> 'b list) option"
  rank_serialize :: "bit_vector \<Rightarrow> 'b list"
  rank_load :: "'b list \<Rightarrow> 'b list option"
  select_serialize :: "bit_vector \<Rightarrow> 'b list"
  select_load :: "'b list \<Rightarrow> 'b list option"
  wt_serialize :: "wt_int \<Rightarrow> 'b list"
  wt_load :: "'b list \<Rightarrow> (wt_int \<times> 'b list) option"

text \<open>Every primitive reads back what it wrote and leaves the rest of the stream.\<close>

definition primitives_round_trip :: "'b primitives \<Rightarrow> bool" where
  "primitives_round_trip P \<longleftrightarrow>
     (\<forall>v rest. iv_load P (iv_serialize P v @ rest) = Some (v, rest))
     \<and> (\<forall>v rest. bv_load P (bv_serialize P v @ rest) = Some (v, rest))
     \<and> (\<forall>v rest. rank_load P (rank_serialize P v @ rest) = Some rest)
     \<and> (\<forall>v rest. select_load P (select_serialize P v @ rest) = Some rest)
     \<and> (\<forall>v rest. wt_load P (wt_serialize P v @ rest) = Some (v, rest))"

text \<open>
  \<^verbatim>\<open>_sa_order_sampling\<close> inherits \<^verbatim>\<open>serialize\<close> and \<^verbatim>\<open>load\<close> from its base class, the
  integer vector.
\<close>

definition sa_order_serialize :: "'b primitives \<Rightarrow> int_vector \<Rightarrow> 'b list" where
  "sa_order_serialize P X = iv_serialize P X"

definition sa_order_load :: "'b primitives \<Rightarrow> 'b list \<Rightarrow> (int_vector \<times> 'b list) option" where
  "sa_order_load P s = iv_load P s"

text \<open>\<^verbatim>\<open>_text_order_sampling::serialize\<close> and \<^verbatim>\<open>load\<close>: samples, marked, rank_marked.\<close>

definition text_order_serialize :: "'b primitives \<Rightarrow> text_order_sampling \<Rightarrow> 'b list" where
  "text_order_serialize P X =
     iv_serialize P (tos_samples X) @ bv_serialize P (tos_marked X)
       @ rank_serialize P (tos_marked X)"

definition text_order_load ::
  "'b primitives \<Rightarrow> 'b list \<Rightarrow> (text_order_sampling \<times> 'b list) option" where
  "text_order_load P s =
     (case iv_load P s of
        None \<Rightarrow> None
      | Some (smp, s1) \<Rightarrow>
          (case bv_load P s1 of
             None \<Rightarrow> None
           | Some (marked, s2) \<Rightarrow>
               (case rank_load P s2 of
                  None \<Rightarrow> None
                | Some s3 \<Rightarrow> Some (\<lparr>tos_samples = smp, tos_marked = marked\<rparr>, s3))))"

text \<open>\<^verbatim>\<open>_bwt_sampling::serialize\<close> and \<^verbatim>\<open>load\<close>: samples, marked, rank_marked.\<close>

definition bwt_serialize :: "'b primitives \<Rightarrow> bwt_sampling \<Rightarrow> 'b list" where
  "bwt_serialize P X =
     iv_serialize P (bws_samples X) @ bv_serialize P (bws_marked X)
       @ rank_serialize P (bws_marked X)"

definition bwt_load :: "'b primitives \<Rightarrow> 'b list \<Rightarrow> (bwt_sampling \<times> 'b list) option" where
  "bwt_load P s =
     (case iv_load P s of
        None \<Rightarrow> None
      | Some (smp, s1) \<Rightarrow>
          (case bv_load P s1 of
             None \<Rightarrow> None
           | Some (marked, s2) \<Rightarrow>
               (case rank_load P s2 of
                  None \<Rightarrow> None
                | Some s3 \<Rightarrow> Some (\<lparr>bws_samples = smp, bws_marked = marked\<rparr>, s3))))"

text \<open>
  \<^verbatim>\<open>_fuzzy_sa_sampling::serialize\<close> and \<^verbatim>\<open>load\<close>: marked_sa, rank_marked_sa, marked_isa,
  select_marked_isa, inv_perm.
\<close>

definition fuzzy_serialize :: "'b primitives \<Rightarrow> fuzzy_sa_sampling \<Rightarrow> 'b list" where
  "fuzzy_serialize P X =
     bv_serialize P (fz_marked_sa X) @ rank_serialize P (fz_marked_sa X)
       @ bv_serialize P (fz_marked_isa X) @ select_serialize P (fz_marked_isa X)
       @ wt_serialize P (fz_inv_perm X)"

definition fuzzy_load ::
  "'b primitives \<Rightarrow> 'b list \<Rightarrow> (fuzzy_sa_sampling \<times> 'b list) option" where
  "fuzzy_load P s =
     (case bv_load P s of
        None \<Rightarrow> None
      | Some (marked_sa, s1) \<Rightarrow>
          (case rank_load P s1 of
             None \<Rightarrow> None
           | Some s2 \<Rightarrow>
               (case bv_load P s2 of
                  None \<Rightarrow> None
                | Some (marked_isa, s3) \<Rightarrow>
                    (case select_load P s3 of
                       None \<Rightarrow> None
                     | Some s4 \<Rightarrow>
                         (case wt_load P s4 of
                            None \<Rightarrow> None
                          | Some (inv_perm, s5) \<Rightarrow>
                              Some (\<lparr>fz_marked_sa = marked_sa, fz_marked_isa = marked_isa,
                                     fz_inv_perm = inv_perm\<rparr>, s5))))))"

text \<open>
  Value equality. \<^verbatim>\<open>_fuzzy_sa_sampling::operator==\<close> compares the five members; the two
  supports are bound to the compared bit vectors. The other three classes have no
  equality operator of their own and inherit the one of the integer vector, which
  compares the samples.
\<close>

definition fuzzy_equal :: "fuzzy_sa_sampling \<Rightarrow> fuzzy_sa_sampling \<Rightarrow> bool" where
  "fuzzy_equal X Y \<longleftrightarrow>
     fz_marked_sa X = fz_marked_sa Y \<and> fz_marked_isa X = fz_marked_isa Y
     \<and> fz_inv_perm X = fz_inv_perm Y"

definition text_order_equal :: "text_order_sampling \<Rightarrow> text_order_sampling \<Rightarrow> bool" where
  "text_order_equal X Y \<longleftrightarrow> tos_samples X = tos_samples Y"

definition bwt_equal :: "bwt_sampling \<Rightarrow> bwt_sampling \<Rightarrow> bool" where
  "bwt_equal X Y \<longleftrightarrow> bws_samples X = bws_samples Y"

text \<open>
  An instance of the primitives over a stream of numbers: a vector is written as its
  length (and width) followed by its entries, and the supports write nothing.
\<close>

definition read_block :: "nat list \<Rightarrow> (nat list \<times> nat list) option" where
  "read_block s =
     (case s of
        [] \<Rightarrow> None
      | n # rest \<Rightarrow> if n \<le> length rest then Some (take n rest, drop n rest) else None)"

definition example_primitives :: "nat primitives" where
  "example_primitives =
     \<lparr>iv_serialize = (\<lambda>v. iv_width v # length (iv_data v) # iv_data v),
      iv_load = (\<lambda>s. case s of
                        [] \<Rightarrow> None
                      | w # s' \<Rightarrow> map_option (\<lambda>(xs, rest). (\<lparr>iv_width = w, iv_data = xs\<rparr>, rest))
                                   (read_block s')),
      bv_serialize = (\<lambda>bv. length bv # map (\<lambda>b. if b then 1 else 0) bv),
      bv_load = (\<lambda>s. map_option (\<lambda>(xs, rest). (map (\<lambda>x. x = 1) xs, rest)) (read_block s)),
      rank_serialize = (\<lambda>bv. []),
      rank_load = (\<lambda>s. Some s),
      select_serialize = (\<lambda>bv. []),
      select_load = (\<lambda>s. Some s),
      wt_serialize = (\<lambda>wt. length wt # wt),
      wt_load = read_block\<rparr>"

section \<open>Facts about the primitives\<close>

lemma hi_bound: "n < 2 ^ (hi n + 1)"
proof (induction n rule: hi.induct)
  case (1 n)
  show ?case
  proof (cases "n < 2")
    case True
    then show ?thesis by (simp add: hi.simps)
  next
    case False
    with 1 have "n div 2 < 2 ^ (hi (n div 2) + 1)" by simp
    then have "n < 2 * 2 ^ (hi (n div 2) + 1)" by linarith
    with False show ?thesis by (simp add: hi.simps [of n])
  qed
qed

lemma ofold_append:
  "ofold f (xs @ ys) s = (case ofold f xs s of None \<Rightarrow> None | Some s' \<Rightarrow> ofold f ys s')"
  by (induction xs arbitrary: s) (auto split: option.splits)

lemma ofold_snoc:
  "ofold f (xs @ [x]) s = (case ofold f xs s of None \<Rightarrow> None | Some s' \<Rightarrow> f x s')"
  by (simp add: ofold_append split: option.splits)

section \<open>Rounding up in a division\<close>

lemma ceil_div_dvd:
  assumes "0 < (d::nat)" "k mod d = 0"
  shows "(k + d - 1) div d * d = k"
proof -
  from assms obtain q where q: "k = q * d" by (metis mod_eq_0_iff_dvd dvd_def mult.commute)
  from assms obtain d' where d': "d = Suc d'" by (cases d) auto
  have "q * d + d - 1 = d' + q * d" by (simp add: d')
  then have "(q * d + d - 1) div d = (d' + q * d) div d" by simp
  also have "\<dots> = d' div d + q" using assms(1) by simp
  also have "\<dots> = q" using d' by simp
  finally show ?thesis using q by simp
qed

lemma ceil_div_Suc:
  assumes "0 < (d::nat)"
  shows "(Suc k + d - 1) div d = (if k mod d = 0 then Suc ((k + d - 1) div d) else (k + d - 1) div d)"
proof -
  define m where "m = k + d - 1"
  have sm: "Suc m = k + d" using assms by (simp add: m_def)
  have md: "Suc m mod d = k mod d" by (simp add: sm)
  have "Suc m div d = (if k mod d = 0 then Suc (m div d) else m div d)"
    by (simp only: div_Suc md)
  moreover have "Suc k + d - 1 = Suc m" by (simp add: sm)
  ultimately show ?thesis by (simp only: m_def)
qed

lemma ceil_div_mult_le: "0 < (d::nat) \<Longrightarrow> (k + d - 1) div d * d < k + d"
proof -
  assume "0 < d"
  have "(k + d - 1) div d * d \<le> k + d - 1" by simp
  with \<open>0 < d\<close> show ?thesis by linarith
qed

lemma ceil_div_less:
  assumes "0 < (d::nat)" "c * d < n"
  shows "c < (n + d - 1) div d"
proof -
  have "c * d + d \<le> n + d - 1" using assms by linarith
  then have "(c * d + d) div d \<le> (n + d - 1) div d" by (rule div_le_mono)
  then show ?thesis using assms by simp
qed


lemma ceil_div_less_iff:
  assumes "0 < (d::nat)"
  shows "c < (n + d - 1) div d \<longleftrightarrow> c * d < n"
proof
  assume "c < (n + d - 1) div d"
  then have "Suc c \<le> (n + d - 1) div d" by simp
  then have "Suc c * d \<le> (n + d - 1) div d * d" by (rule mult_le_mono1)
  also have "\<dots> \<le> n + d - 1" by simp
  finally show "c * d < n" using assms by simp
next
  assume "c * d < n"
  with assms show "c < (n + d - 1) div d" by (rule ceil_div_less)
qed

lemma ceil_div_pos: 
  assumes "0 < (d::nat)" "0 < n"
  shows "(n + d - 1) div d = (n - 1) div d + 1"
proof -
  from assms obtain n' where n': "n = Suc n'" by (cases n) auto
  have "(n' + d) div d = n' div d + 1" using assms(1) by (metis div_add_self2 less_numeral_extra(3))
  then show ?thesis by (simp add: n')
qed

lemma multiple_eq:
  assumes "(a::nat) mod d = 0" "b mod d = 0" "a div d = b div d"
  shows "a = b"
  using assms by (metis div_mult_mod_eq)

lemma block_index_less:
  assumes "0 < (d::nat)" "i < n"
  shows "i div d < (n + d - 1) div d"
proof -
  have "i div d * d \<le> i" by simp
  with assms(2) have "i div d * d < n" by linarith
  with assms(1) show ?thesis by (rule ceil_div_less)
qed

lemma next_block_wraps:
  assumes d: "0 < (d::nat)" and i: "i < n" and m: "m = (n + d - 1) div d"
    and ci: "ci = (i div d + 1) mod m"
  shows "ci * d < n" and "i \<le> ci * d \<or> (ci * d = 0 \<and> i div d + 1 = m)"
proof -
  from block_index_less [OF d i] m have lt: "i div d < m" by simp
  then have cim: "ci < m" unfolding ci by simp
  then show "ci * d < n" using ceil_div_less_iff [OF d, of ci n] m by simp
  show "i \<le> ci * d \<or> (ci * d = 0 \<and> i div d + 1 = m)"
  proof (cases "i div d + 1 < m")
    case True
    then have "ci = i div d + 1" unfolding ci by simp
    moreover have "i < (i div d + 1) * d" using d by (simp add: dividend_less_div_times add.commute)
    ultimately show ?thesis by simp
  next
    case False
    with lt have "i div d + 1 = m" by simp
    then show ?thesis unfolding ci by simp
  qed
qed

section \<open>Permutations and their inverses\<close>

lemma perm_set: 
  assumes "is_permutation xs" shows "set xs = {..<length xs}"
proof -
  from assms have d: "distinct xs" and b: "set xs \<subseteq> {..<length xs}"
    by (auto simp: is_permutation_def list_all_iff)
  from d have "card (set xs) = card {..<length xs}" by (simp add: distinct_card)
  with b show ?thesis by (simp add: card_subset_eq)
qed

lemma perm_nth_less: "is_permutation xs \<Longrightarrow> i < length xs \<Longrightarrow> xs ! i < length xs"
  by (simp add: is_permutation_def list_all_length)

lemma perm_nth_inj:
  "is_permutation xs \<Longrightarrow> i < length xs \<Longrightarrow> j < length xs \<Longrightarrow> xs ! i = xs ! j \<longleftrightarrow> i = j"
  by (simp add: is_permutation_def nth_eq_iff_index_eq)

lemma perm_nth_surj:
  assumes "is_permutation xs" "v < length xs"
  shows "\<exists>i<length xs. xs ! i = v"
proof -
  from assms have "v \<in> set xs" by (simp add: perm_set)
  then show ?thesis by (simp add: in_set_conv_nth)
qed

lemma inverse_nth: "inverse_of SA ISA \<Longrightarrow> i < length SA \<Longrightarrow> ISA ! (SA ! i) = i"
  by (simp add: inverse_of_def list_all_iff)

lemma inverse_length: "inverse_of SA ISA \<Longrightarrow> length ISA = length SA"
  by (simp add: inverse_of_def)

lemma inverse_nth_rev:
  assumes "is_permutation SA" "inverse_of SA ISA" "p < length SA"
  shows "SA ! (ISA ! p) = p" and "ISA ! p < length SA"
proof -
  from perm_nth_surj [OF assms(1,3)] obtain i where i: "i < length SA" "SA ! i = p" by blast
  with assms(2) have "ISA ! p = i" using inverse_nth by blast
  with i show "SA ! (ISA ! p) = p" and "ISA ! p < length SA" by simp_all
qed

lemma inverse_perm:
  assumes "is_permutation SA" "inverse_of SA ISA"
  shows "is_permutation ISA"
proof -
  have len: "length ISA = length SA" using assms(2) by (rule inverse_length)
  have "distinct ISA"
    unfolding distinct_conv_nth
  proof (intro allI impI)
    fix p q assume "p < length ISA" "q < length ISA" "p \<noteq> q"
    then show "ISA ! p \<noteq> ISA ! q"
      using inverse_nth_rev(1) [OF assms] len by metis
  qed
  moreover have "\<forall>p<length ISA. ISA ! p < length ISA"
    using inverse_nth_rev(2) [OF assms] len by simp
  ultimately show ?thesis by (simp add: is_permutation_def list_all_length)
qed

section \<open>Rank and select on a bit vector\<close>

lemma ones_sorted: "sorted (ones bv)" and ones_distinct: "distinct (ones bv)"
  by (simp_all add: ones_def sorted_wrt_filter)

lemma set_ones: "set (ones bv) = {i. i < length bv \<and> bv ! i}"
  by (auto simp: ones_def)

lemma ones_split:
  assumes "i < length bv"
  shows "ones bv = filter (\<lambda>j. bv ! j) [0..<i] @ filter (\<lambda>j. bv ! j) [i..<length bv]"
proof -
  from assms have "[0..<length bv] = [0..<i] @ [i..<length bv]"
    by (metis le_add_diff_inverse less_imp_le_nat upt_add_eq_append zero_le)
  then show ?thesis by (simp add: ones_def)
qed

lemma ones_nth_rank:
  assumes "i < length bv" "bv ! i"
  shows "length (filter (\<lambda>j. bv ! j) [0..<i]) < length (ones bv)"
    and "ones bv ! length (filter (\<lambda>j. bv ! j) [0..<i]) = i"
proof -
  from assms have "[i..<length bv] = i # [Suc i..<length bv]" by (simp add: upt_conv_Cons)
  with assms have s: "ones bv = filter (\<lambda>j. bv ! j) [0..<i] @ i # filter (\<lambda>j. bv ! j) [Suc i..<length bv]"
    by (simp add: ones_split)
  show "length (filter (\<lambda>j. bv ! j) [0..<i]) < length (ones bv)"
    using arg_cong [OF s, of length] by simp
  show "ones bv ! length (filter (\<lambda>j. bv ! j) [0..<i]) = i"
    by (subst s) (simp add: nth_append)
qed

lemma rank1_eq: "i \<le> length bv \<Longrightarrow> rank1 bv i = Some (length (filter (\<lambda>j. bv ! j) [0..<i]))"
  by (simp add: rank1_def)

lemma select1_eq: "k < length (ones bv) \<Longrightarrow> select1 bv (k + 1) = Some (ones bv ! k)"
  by (simp add: select1_def)

lemma rank_ones_nth:
  assumes "k < length (ones bv)"
  shows "length (filter (\<lambda>j. bv ! j) [0..<ones bv ! k]) = k"
proof -
  let ?i = "ones bv ! k"
  from assms have "?i \<in> set (ones bv)" by simp
  then have i: "?i < length bv" "bv ! ?i" by (simp_all add: set_ones)
  from ones_nth_rank [OF i] assms show ?thesis
    using ones_distinct [of bv] by (simp add: nth_eq_iff_index_eq)
qed

lemma ones_unique:
  assumes "sorted xs" "distinct xs" "set xs = {i. i < length bv \<and> bv ! i}"
  shows "ones bv = xs"
  using assms ones_sorted ones_distinct set_ones
  by (metis sorted_distinct_set_unique)

section \<open>Counting marks\<close>

lemma popcount_ones: "length (ones bv) = popcount bv"
proof -
  have "filter (\<lambda>b. b) bv = filter (\<lambda>b. b) (map (nth bv) [0..<length bv])" by (simp add: map_nth)
  also have "\<dots> = map (nth bv) (filter (\<lambda>j. bv ! j) [0..<length bv])" by (simp add: filter_map comp_def)
  finally show ?thesis by (simp add: popcount_def ones_def)
qed

lemma count_multiples:
  assumes "0 < (d::nat)"
  shows "length (filter (\<lambda>v. v mod d = 0) [0..<n]) = (n + d - 1) div d"
proof (induction n)
  case 0
  from assms show ?case by simp
next
  case (Suc n)
  then show ?case using ceil_div_Suc [OF assms, of n] by simp
qed

lemma perm_filter_count:
  assumes "is_permutation SA"
  shows "length (filter (\<lambda>i. Q (SA ! i)) [0..<length SA]) = length (filter Q [0..<length SA])"
proof -
  have "filter Q SA = filter Q (map (nth SA) [0..<length SA])" by (simp add: map_nth)
  also have "\<dots> = map (nth SA) (filter (\<lambda>i. Q (SA ! i)) [0..<length SA])"
    by (simp add: filter_map comp_def)
  finally have "length (filter (\<lambda>i. Q (SA ! i)) [0..<length SA]) = length (filter Q SA)" by simp
  also have "\<dots> = card ({x. Q x} \<inter> set SA)"
    using assms by (simp add: is_permutation_def distinct_length_filter)
  also have "\<dots> = card ({x. Q x} \<inter> set [0..<length SA])"
    using perm_set [OF assms] by (simp add: lessThan_atLeast0)
  also have "\<dots> = length (filter Q [0..<length SA])"
    by (simp add: distinct_length_filter)
  finally show ?thesis .
qed

lemma filter_upt_mono:
  assumes "k \<le> n"
  shows "length (filter P [0..<k]) \<le> length (filter P [0..<n])"
proof -
  from assms have "[0..<n] = [0..<k] @ [k..<n]"
    by (metis le_add_diff_inverse upt_add_eq_append zero_le)
  then show ?thesis by simp
qed

lemma ones_map: "ones (map P [0..<n]) = filter P [0..<n]"
  unfolding ones_def by (rule filter_cong) simp_all

section \<open>Suffix-order sampling: the samples are the suffix array at the multiples of the density\<close>

lemma sa_order_loop_inv:
  assumes d: "0 < d" and k: "k \<le> length SA"
    and fit: "\<forall>j<length SA. SA ! j < 2 ^ w"
    and B: "B = (length SA + d - 1) div d"
  shows "\<exists>smp. ofold (sa_order_step d SA) [0..<k] (d, 0, iv_make w B)
           = Some (k + d - ((k + d - 1) div d) * d, (k + d - 1) div d, smp)
         \<and> iv_width smp = w \<and> length (iv_data smp) = B
         \<and> (\<forall>j<(k + d - 1) div d. iv_data smp ! j = SA ! (j * d))"
  using k
proof (induction k)
  case 0
  from d have "(d - Suc 0) div d = 0" by simp
  then show ?case by (simp add: iv_make_def)
next
  case (Suc k)
  then have kn: "k < length SA" by simp
  let ?c = "(k + d - 1) div d"
  from Suc kn obtain smp where run: "ofold (sa_order_step d SA) [0..<k] (d, 0, iv_make w B)
           = Some (k + d - ?c * d, ?c, smp)"
    and w: "iv_width smp = w" and len: "length (iv_data smp) = B"
    and vals: "\<forall>j<?c. iv_data smp ! j = SA ! (j * d)" by auto
  have clt: "?c * d < k + d" using d by (rule ceil_div_mult_le)
  show ?case
  proof (cases "k mod d = 0")
    case True
    have keq: "?c * d = k" using d True by (rule ceil_div_dvd)
    have c': "(Suc k + d - 1) div d = Suc ?c" by (simp only: ceil_div_Suc [OF d] True if_True simp_thms)
    have cB: "?c < B" unfolding B using d kn keq by (intro ceil_div_less) simp_all
    from fit kn have m: "SA ! k mod 2 ^ w = SA ! k" by simp
    let ?smp = "smp\<lparr>iv_data := (iv_data smp)[?c := SA ! k]\<rparr>"
    have cmd: "k + d - ?c * d = d" using keq by simp
    have step: "sa_order_step d SA k (d, ?c, smp) = Some (Suc 0, Suc ?c, ?smp)"
      using cB len w m by (simp add: sa_order_step_def iv_set_def)
    have cm: "Suc k + d - Suc ?c * d = Suc 0" using keq by simp
    have vals': "\<forall>j<Suc ?c. iv_data ?smp ! j = SA ! (j * d)"
      using vals keq cB len by (auto simp: nth_list_update less_Suc_eq)
    have "ofold (sa_order_step d SA) [0..<Suc k] (d, 0, iv_make w B) = Some (Suc 0, Suc ?c, ?smp)"
      by (simp only: upt_Suc_append [OF le0] ofold_snoc run cmd step option.case)
    then show ?thesis
      unfolding c' cm using vals' w len by simp
  next
    case False
    have ne: "?c * d \<noteq> k" using False by (metis mod_mult_self2_is_0)
    have c': "(Suc k + d - 1) div d = ?c" by (simp only: ceil_div_Suc [OF d] False if_False)
    have cmd: "d \<noteq> k + d - ?c * d" using ne clt by linarith
    have step: "sa_order_step d SA k (k + d - ?c * d, ?c, smp) = Some (Suc (k + d - ?c * d), ?c, smp)"
      using cmd by (simp add: sa_order_step_def)
    have cm: "Suc (k + d - ?c * d) = Suc k + d - ?c * d" using clt by linarith
    have "ofold (sa_order_step d SA) [0..<Suc k] (d, 0, iv_make w B) = Some (Suc k + d - ?c * d, ?c, smp)"
      by (simp only: upt_Suc_append [OF le0] ofold_snoc run step option.case cm)
    then show ?thesis
      unfolding c' using vals w len by simp
  qed
qed

lemma sa_order_sampling_data:
  assumes d: "0 < d" and fit: "\<forall>x\<in>set SA. x < length SA"
  shows "\<exists>smp. sa_order_sampling d SA = Some smp
           \<and> length (iv_data smp) = (length SA + d - 1) div d
           \<and> (\<forall>j<(length SA + d - 1) div d. iv_data smp ! j = SA ! (j * d))"
proof -
  have "\<forall>j<length SA. SA ! j < 2 ^ (hi (length SA) + 1)"
    using fit hi_bound [of "length SA"] by (meson less_trans nth_mem)
  from sa_order_loop_inv [OF d le_refl this refl]
  show ?thesis by (auto simp: sa_order_sampling_def Let_def)
qed

lemma sa_order_get_block:
  assumes "1 \<le> d" and "\<forall>x\<in>set SA. x < length SA" and "i < length SA"
  shows "\<exists>X. sa_order_sampling d SA = Some X
            \<and> sa_order_get d X i = Some (SA ! (d * (i div d)))"
proof -
  from assms have d: "0 < d" by simp
  from sa_order_sampling_data [OF d assms(2)] obtain smp where
    X: "sa_order_sampling d SA = Some smp"
    and len: "length (iv_data smp) = (length SA + d - 1) div d"
    and vals: "\<forall>j<(length SA + d - 1) div d. iv_data smp ! j = SA ! (j * d)" by blast
  have "i div d * d \<le> i" by simp
  with assms(3) have "i div d * d < length SA" by linarith
  with d have lt: "i div d < (length SA + d - 1) div d" by (rule ceil_div_less)
  with vals len X show ?thesis
    by (simp add: sa_order_get_def iv_get_def mult.commute)
qed

lemma sa_order_get_sampled:
  assumes "1 \<le> d" and "is_permutation SA" and "i < length SA"
    and "sa_order_sampling d SA = Some X" and "sa_order_is_sampled d i"
  shows "sa_order_get d X i = Some (SA ! i)"
proof -
  from assms(2) have "\<forall>x\<in>set SA. x < length SA" by (simp add: is_permutation_def list_all_iff)
  from sa_order_get_block [OF assms(1) this assms(3)] assms(4)
  have "sa_order_get d X i = Some (SA ! (d * (i div d)))" by simp
  moreover from assms(5) have "d * (i div d) = i" by (auto simp: sa_order_is_sampled_def)
  ultimately show ?thesis by simp
qed

text \<open>
  Claim C10. For a suffix-order sampling built with density \<open>d \<ge> 1\<close> from a suffix array
  of length \<open>n\<close> (its entries are text positions below \<open>n\<close>), the access operator is
  defined at every index \<open>i < n\<close>, sampled or not, and returns \<open>SA[d * (i div d)]\<close>, the
  sample of the block that holds \<open>i\<close>.
\<close>

theorem sa_order_access_block:
  assumes "1 \<le> d" and "\<forall>x\<in>set SA. x < length SA" and "i < length SA"
  shows "\<exists>X. sa_order_sampling d SA = Some X
            \<and> sa_order_get d X i = Some (SA ! (d * (i div d)))"
  using sa_order_get_block [OF assms] .

theorem sa_order_access_block_witness:
  "\<exists>X. sa_order_sampling 2 [12, 6, 0, 7, 1, 8, 2, 9, 3, 10, 4, 11, 5] = Some X
     \<and> sa_order_get 2 X 5 = Some 1"
proof -
  have h1: "(1::nat) \<le> 2" by simp
  have h2: "\<forall>x\<in>set [12, 6, 0, 7, 1, 8, 2, 9, 3, 10, 4, 11, 5::nat].
              x < length [12, 6, 0, 7, 1, 8, 2, 9, 3, 10, 4, 11, 5::nat]" by simp
  have h3: "5 < length [12, 6, 0, 7, 1, 8, 2, 9, 3, 10, 4, 11, 5::nat]" by simp
  show ?thesis using sa_order_access_block [OF h1 h2 h3] by simp
qed

section \<open>Text-order sampling: marks and condensed samples\<close>

lemma text_order_loop_inv:
  assumes d: "0 < d" and perm: "is_permutation SA" and k: "k \<le> length SA"
    and fit: "\<forall>j<length SA. SA ! j div d < 2 ^ w"
    and B: "B = (length SA + d - 1) div d"
  shows "\<exists>smp. ofold (text_order_step d SA) [0..<k] (0, replicate (length SA) False, iv_make w B)
           = Some (length (filter (\<lambda>i. SA ! i mod d = 0) [0..<k]),
                   map (\<lambda>i. i < k \<and> SA ! i mod d = 0) [0..<length SA], smp)
         \<and> iv_width smp = w \<and> length (iv_data smp) = B
         \<and> take (length (filter (\<lambda>i. SA ! i mod d = 0) [0..<k])) (iv_data smp)
             = map (\<lambda>i. SA ! i div d) (filter (\<lambda>i. SA ! i mod d = 0) [0..<k])"
  using k
proof (induction k)
  case 0
  have "replicate (length SA) False = map (\<lambda>i. False) [0..<length SA]"
    by (simp add: map_replicate_const)
  then show ?case by (simp add: iv_make_def)
next
  case (Suc k)
  let ?P = "\<lambda>i. SA ! i mod d = 0"
  let ?n = "length SA"
  let ?c = "length (filter ?P [0..<k])"
  from Suc have kn: "k < ?n" by simp
  from Suc kn obtain smp where
    run: "ofold (text_order_step d SA) [0..<k] (0, replicate ?n False, iv_make w B)
           = Some (?c, map (\<lambda>i. i < k \<and> ?P i) [0..<?n], smp)"
    and w: "iv_width smp = w" and len: "length (iv_data smp) = B"
    and vals: "take ?c (iv_data smp) = map (\<lambda>i. SA ! i div d) (filter ?P [0..<k])" by auto
  show ?case
  proof (cases "?P k")
    case True
    have "length (filter ?P [0..<Suc k]) \<le> length (filter ?P [0..<?n])"
      using kn by (intro filter_upt_mono) simp
    also have "\<dots> = length (filter (\<lambda>v. v mod d = 0) [0..<?n])"
      by (rule perm_filter_count [OF perm])
    also have "\<dots> = B" unfolding B by (rule count_multiples [OF d])
    finally have cB: "?c < B" using True by simp
    have m: "SA ! k div d mod 2 ^ w = SA ! k div d" using fit kn by simp
    let ?smp = "smp\<lparr>iv_data := (iv_data smp)[?c := SA ! k div d]\<rparr>"
    have mk: "(map (\<lambda>i. i < k \<and> ?P i) [0..<?n])[k := True] = map (\<lambda>i. i < Suc k \<and> ?P i) [0..<?n]"
      using True kn by (intro nth_equalityI) (auto simp: nth_list_update less_Suc_eq)
    have step: "text_order_step d SA k (?c, map (\<lambda>i. i < k \<and> ?P i) [0..<?n], smp)
                 = Some (Suc ?c, map (\<lambda>i. i < Suc k \<and> ?P i) [0..<?n], ?smp)"
      using True cB len w m kn mk by (simp add: text_order_step_def iv_set_def bv_set_def)
    have tk: "take (Suc ?c) (iv_data ?smp) = map (\<lambda>i. SA ! i div d) (filter ?P [0..<k]) @ [SA ! k div d]"
      using cB len vals by (simp add: take_Suc_conv_app_nth)
    have "ofold (text_order_step d SA) [0..<Suc k] (0, replicate ?n False, iv_make w B)
           = Some (Suc ?c, map (\<lambda>i. i < Suc k \<and> ?P i) [0..<?n], ?smp)"
      by (simp only: upt_Suc_append [OF le0] ofold_snoc run step option.case)
    then show ?thesis using True tk w len by simp
  next
    case False
    have mk: "map (\<lambda>i. i < k \<and> ?P i) [0..<?n] = map (\<lambda>i. i < Suc k \<and> ?P i) [0..<?n]"
      using False by (auto simp: less_Suc_eq)
    have step: "text_order_step d SA k (?c, map (\<lambda>i. i < k \<and> ?P i) [0..<?n], smp)
                 = Some (?c, map (\<lambda>i. i < Suc k \<and> ?P i) [0..<?n], smp)"
      using False mk by (simp add: text_order_step_def)
    have "ofold (text_order_step d SA) [0..<Suc k] (0, replicate ?n False, iv_make w B)
           = Some (?c, map (\<lambda>i. i < Suc k \<and> ?P i) [0..<?n], smp)"
      by (simp only: upt_Suc_append [OF le0] ofold_snoc run step option.case)
    then show ?thesis using False vals w len by simp
  qed
qed


lemma text_order_build_eq:
  assumes d: "0 < d" and perm: "is_permutation SA"
  shows "\<exists>smp. text_order_build d SA
            = Some \<lparr>tos_samples = smp, tos_marked = map (\<lambda>i. SA ! i mod d = 0) [0..<length SA]\<rparr>
          \<and> iv_data smp = map (\<lambda>i. SA ! i div d) (filter (\<lambda>i. SA ! i mod d = 0) [0..<length SA])"
proof -
  let ?n = "length SA"
  let ?P = "\<lambda>i. SA ! i mod d = 0"
  let ?B = "(?n + d - 1) div d"
  have fit: "\<forall>j<?n. SA ! j div d < 2 ^ (hi (?n div d) + 1)"
  proof (intro allI impI)
    fix j assume "j < ?n"
    then have "SA ! j \<le> ?n" using perm_nth_less [OF perm] by (simp add: less_imp_le)
    then have "SA ! j div d \<le> ?n div d" by (rule div_le_mono)
    with hi_bound [of "?n div d"] show "SA ! j div d < 2 ^ (hi (?n div d) + 1)" by linarith
  qed
  from text_order_loop_inv [OF d perm le_refl fit refl] obtain smp where
    run: "ofold (text_order_step d SA) [0..<?n] (0, replicate ?n False, iv_make (hi (?n div d) + 1) ?B)
           = Some (length (filter ?P [0..<?n]), map (\<lambda>i. i < ?n \<and> ?P i) [0..<?n], smp)"
    and len: "length (iv_data smp) = ?B"
    and vals: "take (length (filter ?P [0..<?n])) (iv_data smp)
             = map (\<lambda>i. SA ! i div d) (filter ?P [0..<?n])" by blast
  have cnt: "length (filter ?P [0..<?n]) = ?B"
    using perm_filter_count [OF perm, of "\<lambda>v. v mod d = 0"] count_multiples [OF d, of ?n] by simp
  have mk: "map (\<lambda>i. i < ?n \<and> ?P i) [0..<?n] = map ?P [0..<?n]" by simp
  from vals cnt len have "iv_data smp = map (\<lambda>i. SA ! i div d) (filter ?P [0..<?n])" by simp
  moreover have "text_order_build d SA = Some \<lparr>tos_samples = smp, tos_marked = map ?P [0..<?n]\<rparr>"
    unfolding text_order_build_def Let_def run mk by simp
  ultimately show ?thesis by blast
qed

lemma text_order_build_facts:
  assumes "1 \<le> d" and "is_permutation SA"
  shows "\<exists>X. text_order_build d SA = Some X
           \<and> length (tos_marked X) = length SA
           \<and> popcount (tos_marked X) = (length SA + d - 1) div d
           \<and> (\<forall>i<length SA. text_order_is_sampled X i = Some (SA ! i mod d = 0))
           \<and> (\<forall>i<length SA. text_order_is_sampled X i = Some True \<longrightarrow>
                 (\<exists>r. rank1 (tos_marked X) i = Some r
                     \<and> condensed_sa X r = Some (SA ! i div d)))"
proof -
  let ?n = "length SA"
  let ?P = "\<lambda>i. SA ! i mod d = 0"
  let ?mk = "map ?P [0..<?n]"
  from assms have d: "0 < d" by simp
  from text_order_build_eq [OF d assms(2)] obtain smp where
    X: "text_order_build d SA = Some \<lparr>tos_samples = smp, tos_marked = ?mk\<rparr>"
    and vals: "iv_data smp = map (\<lambda>i. SA ! i div d) (filter ?P [0..<?n])" by blast
  have pc: "popcount ?mk = (?n + d - 1) div d"
    using perm_filter_count [OF assms(2), of "\<lambda>v. v mod d = 0"] count_multiples [OF d, of ?n]
    by (simp add: popcount_ones [symmetric] ones_map)
  have smp: "rank1 ?mk i = Some (length (filter (\<lambda>j. ?mk ! j) [0..<i]))
             \<and> iv_get smp (length (filter (\<lambda>j. ?mk ! j) [0..<i])) = Some (SA ! i div d)"
    if i: "i < ?n" and P: "?P i" for i
  proof -
    have il: "i < length ?mk" and mi: "?mk ! i" using i P by simp_all
    from ones_nth_rank [OF il mi]
    have r: "length (filter (\<lambda>j. ?mk ! j) [0..<i]) < length (filter ?P [0..<?n])"
      and o: "filter ?P [0..<?n] ! length (filter (\<lambda>j. ?mk ! j) [0..<i]) = i"
      by (simp_all add: ones_map)
    from r o vals i show ?thesis by (simp add: rank1_def iv_get_def)
  qed
  let ?X = "\<lparr>tos_samples = smp, tos_marked = ?mk\<rparr>"
  have c1: "length (tos_marked ?X) = ?n" by simp
  have c2: "popcount (tos_marked ?X) = (?n + d - 1) div d" using pc by simp
  have c3: "\<forall>i<?n. text_order_is_sampled ?X i = Some (SA ! i mod d = 0)"
    by (simp add: text_order_is_sampled_def bv_get_def)
  have c4: "\<forall>i<?n. text_order_is_sampled ?X i = Some True \<longrightarrow>
                 (\<exists>r. rank1 (tos_marked ?X) i = Some r
                     \<and> condensed_sa ?X r = Some (SA ! i div d))"
  proof (intro allI impI)
    fix i assume i: "i < ?n" and "text_order_is_sampled ?X i = Some True"
    then have "?P i" by (simp add: text_order_is_sampled_def bv_get_def)
    from smp [OF i this] show "\<exists>r. rank1 (tos_marked ?X) i = Some r
                     \<and> condensed_sa ?X r = Some (SA ! i div d)"
      by (simp add: condensed_sa_def)
  qed
  from X c1 c2 c3 c4 show ?thesis by blast
qed

lemma text_order_get_sampled:
  assumes d: "1 \<le> d" and perm: "is_permutation SA" and i: "i < length SA"
    and X: "text_order_build d SA = Some X" and s: "text_order_is_sampled X i = Some True"
  shows "text_order_get d X i = Some (SA ! i)"
proof -
  from text_order_build_facts [OF d perm] X i s obtain r where
    r: "rank1 (tos_marked X) i = Some r" "condensed_sa X r = Some (SA ! i div d)"
    and m: "text_order_is_sampled X i = Some (SA ! i mod d = 0)" by auto
  from m s have "SA ! i mod d = 0" by simp
  then have "SA ! i div d * d = SA ! i" by auto
  with r show ?thesis by (simp add: text_order_get_def condensed_sa_def)
qed

text \<open>
  Claim C4. After a text-order sampling is built with density \<open>d \<ge> 1\<close> from a suffix array
  that is a permutation of \<open>[0, n)\<close>, the bit vector \<open>marked\<close> has length \<open>n\<close> and exactly
  \<open>\<lceil>n / d\<rceil>\<close> ones, \<open>marked[i]\<close> is set exactly when \<open>SA[i] mod d = 0\<close>, and for every
  marked \<open>i\<close> the stored sample is \<open>samples[rank1(marked, i)] = SA[i] div d\<close>.
\<close>

theorem text_order_build_marks_and_samples:
  assumes "1 \<le> d" and "is_permutation SA"
  shows "\<exists>X. text_order_build d SA = Some X
           \<and> length (tos_marked X) = length SA
           \<and> popcount (tos_marked X) = (length SA + d - 1) div d
           \<and> (\<forall>i<length SA. text_order_is_sampled X i = Some (SA ! i mod d = 0))
           \<and> (\<forall>i<length SA. text_order_is_sampled X i = Some True \<longrightarrow>
                 (\<exists>r. rank1 (tos_marked X) i = Some r
                     \<and> condensed_sa X r = Some (SA ! i div d)))"
  using text_order_build_facts [OF assms] .

theorem text_order_build_marks_and_samples_witness:
  "\<exists>X. text_order_build 2 [2, 0, 1] = Some X
           \<and> length (tos_marked X) = 3
           \<and> popcount (tos_marked X) = 2
           \<and> text_order_is_sampled X 0 = Some True
           \<and> (\<exists>r. rank1 (tos_marked X) 1 = Some r \<and> condensed_sa X r = Some 0)"
proof -
  have h1: "(1::nat) \<le> 2" by simp
  have h2: "is_permutation [2, 0, 1]" by (simp add: is_permutation_def)
  from text_order_build_marks_and_samples [OF h1 h2] obtain X where
    X: "text_order_build 2 [2, 0, 1] = Some X"
    and l: "length (tos_marked X) = length [2, 0, 1::nat]"
    and p: "popcount (tos_marked X) = (length [2, 0, 1::nat] + 2 - 1) div 2"
    and s: "\<forall>i<length [2, 0, 1::nat]. text_order_is_sampled X i = Some ([2, 0, 1::nat] ! i mod 2 = 0)"
    and r: "\<forall>i<length [2, 0, 1::nat]. text_order_is_sampled X i = Some True \<longrightarrow>
                 (\<exists>r. rank1 (tos_marked X) i = Some r
                     \<and> condensed_sa X r = Some ([2, 0, 1] ! i div 2))"
    by (elim exE conjE) (rule that)
  have s0: "text_order_is_sampled X 0 = Some True" using s [rule_format, of 0] by simp
  have s1: "text_order_is_sampled X 1 = Some True" using s [rule_format, of 1] by simp
  have r1: "\<exists>r. rank1 (tos_marked X) 1 = Some r \<and> condensed_sa X r = Some 0"
    using r [rule_format, of 1] s1 by simp
  have l': "length (tos_marked X) = 3" using l by simp
  have p': "popcount (tos_marked X) = 2" using p by simp
  from X l' p' s0 r1 show ?thesis by (intro exI [of _ X] conjI)
qed
section \<open>BWT-driven sampling: marks, samples and the access operator\<close>

lemma bwt_mark_loop_inv:
  assumes k: "k \<le> length SA" and bl: "length SA \<le> length BWT"
  shows "ofold (bwt_mark_step d SA BWT S) [0..<k] (0, replicate (length SA) False)
           = Some (length (filter (\<lambda>i. SA ! i mod d = 0 \<or> BWT ! i \<in> S) [0..<k]),
                   map (\<lambda>i. i < k \<and> (SA ! i mod d = 0 \<or> BWT ! i \<in> S)) [0..<length SA])"
  using k
proof (induction k)
  case 0
  have "replicate (length SA) False = map (\<lambda>i. False) [0..<length SA]"
    by (simp add: map_replicate_const)
  then show ?case by simp
next
  case (Suc k)
  let ?M = "\<lambda>i. SA ! i mod d = 0 \<or> BWT ! i \<in> S"
  let ?n = "length SA"
  from Suc have kn: "k < ?n" by simp
  with Suc have run: "ofold (bwt_mark_step d SA BWT S) [0..<k] (0, replicate ?n False)
           = Some (length (filter ?M [0..<k]), map (\<lambda>i. i < k \<and> ?M i) [0..<?n])" by simp
  have mk: "(map (\<lambda>i. i < k \<and> ?M i) [0..<?n])[k := True] = map (\<lambda>i. i < Suc k \<and> ?M i) [0..<?n]"
    if "?M k"
    using that kn by (intro nth_equalityI) (auto simp: nth_list_update less_Suc_eq)
  have mk': "map (\<lambda>i. i < k \<and> ?M i) [0..<?n] = map (\<lambda>i. i < Suc k \<and> ?M i) [0..<?n]"
    if "\<not> ?M k"
    using that by (auto simp: less_Suc_eq)
  have step: "bwt_mark_step d SA BWT S k (length (filter ?M [0..<k]), map (\<lambda>i. i < k \<and> ?M i) [0..<?n])
                = Some (length (filter ?M [0..<Suc k]), map (\<lambda>i. i < Suc k \<and> ?M i) [0..<?n])"
  proof (cases "?M k")
    case True
    with kn bl mk [OF True] show ?thesis
      by (auto simp: bwt_mark_step_def bv_set_def Let_def)
  next
    case False
    with kn bl mk' [OF False] show ?thesis
      by (auto simp: bwt_mark_step_def bv_set_def Let_def)
  qed
  show ?case
    by (simp only: upt_Suc_append [OF le0] ofold_snoc run step option.case)
qed

lemma bwt_fill_loop_inv:
  assumes k: "k \<le> length SA" and fit: "\<forall>j<length SA. SA ! j < 2 ^ w"
    and T: "T = length (filter M [0..<length SA])"
  shows "\<exists>smp. ofold (bwt_fill_step SA (map M [0..<length SA])) [0..<k] (0, iv_make w T)
           = Some (length (filter M [0..<k]), smp)
         \<and> iv_width smp = w \<and> length (iv_data smp) = T
         \<and> take (length (filter M [0..<k])) (iv_data smp) = map (nth SA) (filter M [0..<k])"
  using k
proof (induction k)
  case 0
  show ?case by (simp add: iv_make_def)
next
  case (Suc k)
  let ?n = "length SA"
  let ?c = "length (filter M [0..<k])"
  from Suc have kn: "k < ?n" by simp
  from Suc kn obtain smp where
    run: "ofold (bwt_fill_step SA (map M [0..<?n])) [0..<k] (0, iv_make w T) = Some (?c, smp)"
    and w: "iv_width smp = w" and len: "length (iv_data smp) = T"
    and vals: "take ?c (iv_data smp) = map (nth SA) (filter M [0..<k])" by auto
  show ?case
  proof (cases "M k")
    case True
    have "length (filter M [0..<Suc k]) \<le> T" unfolding T using kn by (intro filter_upt_mono) simp
    then have cT: "?c < T" using True by simp
    have m: "SA ! k mod 2 ^ w = SA ! k" using fit kn by simp
    let ?smp = "smp\<lparr>iv_data := (iv_data smp)[?c := SA ! k]\<rparr>"
    have step: "bwt_fill_step SA (map M [0..<?n]) k (?c, smp) = Some (Suc ?c, ?smp)"
      using True cT len w m kn by (simp add: bwt_fill_step_def iv_set_def bv_get_def)
    have tk: "take (Suc ?c) (iv_data ?smp) = map (nth SA) (filter M [0..<k]) @ [SA ! k]"
      using cT len vals by (simp add: take_Suc_conv_app_nth)
    have "ofold (bwt_fill_step SA (map M [0..<?n])) [0..<Suc k] (0, iv_make w T) = Some (Suc ?c, ?smp)"
      by (simp only: upt_Suc_append [OF le0] ofold_snoc run step option.case)
    then show ?thesis using True tk w len by simp
  next
    case False
    have step: "bwt_fill_step SA (map M [0..<?n]) k (?c, smp) = Some (?c, smp)"
      using False kn by (simp add: bwt_fill_step_def bv_get_def)
    have "ofold (bwt_fill_step SA (map M [0..<?n])) [0..<Suc k] (0, iv_make w T) = Some (?c, smp)"
      by (simp only: upt_Suc_append [OF le0] ofold_snoc run step option.case)
    then show ?thesis using False vals w len by simp
  qed
qed

lemma bwt_build_eq:
  assumes fit: "\<forall>x\<in>set SA. x < length SA" and bl: "length BWT = length SA"
  shows "\<exists>smp. bwt_build d SA BWT sc
            = Some \<lparr>bws_samples = smp,
                    bws_marked = map (\<lambda>i. SA ! i mod d = 0 \<or> BWT ! i \<in> bwt_char_map sc) [0..<length SA]\<rparr>
          \<and> iv_data smp = map (nth SA)
               (filter (\<lambda>i. SA ! i mod d = 0 \<or> BWT ! i \<in> bwt_char_map sc) [0..<length SA])"
proof -
  let ?n = "length SA"
  let ?M = "\<lambda>i. SA ! i mod d = 0 \<or> BWT ! i \<in> bwt_char_map sc"
  have fit': "\<forall>j<?n. SA ! j < 2 ^ (hi ?n + 1)"
    using fit hi_bound [of ?n] by (meson less_trans nth_mem)
  have mark: "ofold (bwt_mark_step d SA BWT (bwt_char_map sc)) [0..<?n] (0, replicate ?n False)
           = Some (length (filter ?M [0..<?n]), map ?M [0..<?n])"
    using bwt_mark_loop_inv [OF le_refl, of SA BWT d "bwt_char_map sc"] bl by simp
  from bwt_fill_loop_inv [OF le_refl fit' refl, of ?M] obtain smp where
    fill: "ofold (bwt_fill_step SA (map ?M [0..<?n])) [0..<?n] (0, iv_make (hi ?n + 1) (length (filter ?M [0..<?n])))
           = Some (length (filter ?M [0..<?n]), smp)"
    and len: "length (iv_data smp) = length (filter ?M [0..<?n])"
    and vals: "take (length (filter ?M [0..<?n])) (iv_data smp) = map (nth SA) (filter ?M [0..<?n])"
    by blast
  from vals len have "iv_data smp = map (nth SA) (filter ?M [0..<?n])" by simp
  moreover have "bwt_build d SA BWT sc = Some \<lparr>bws_samples = smp, bws_marked = map ?M [0..<?n]\<rparr>"
    unfolding bwt_build_def Let_def mark using fill by simp
  ultimately show ?thesis by blast
qed


lemma bwt_build_facts:
  assumes "\<forall>x\<in>set SA. x < length SA" and "length BWT = length SA"
  shows "\<exists>X. bwt_build d SA BWT sc = Some X
           \<and> length (bws_marked X) = length SA
           \<and> (\<forall>i<length SA. bwt_is_sampled X i
                 = Some (SA ! i mod d = 0 \<or> BWT ! i \<in> bwt_char_map sc))
           \<and> iv_data (bws_samples X) = map (nth SA) (ones (bws_marked X))"
proof -
  let ?n = "length SA"
  let ?M = "\<lambda>i. SA ! i mod d = 0 \<or> BWT ! i \<in> bwt_char_map sc"
  from bwt_build_eq [OF assms, of d sc] obtain smp where
    X: "bwt_build d SA BWT sc = Some \<lparr>bws_samples = smp, bws_marked = map ?M [0..<?n]\<rparr>"
    and vals: "iv_data smp = map (nth SA) (filter ?M [0..<?n])" by blast
  let ?X = "\<lparr>bws_samples = smp, bws_marked = map ?M [0..<?n]\<rparr>"
  have c1: "length (bws_marked ?X) = ?n" by simp
  have c2: "\<forall>i<?n. bwt_is_sampled ?X i = Some (?M i)"
    by (simp add: bwt_is_sampled_def bv_get_def)
  have c3: "iv_data (bws_samples ?X) = map (nth SA) (ones (bws_marked ?X))"
    using vals by (simp add: ones_map)
  from X c1 c2 c3 show ?thesis by blast
qed

lemma bwt_get_sampled:
  assumes fit: "\<forall>x\<in>set SA. x < length SA" and bl: "length BWT = length SA"
    and i: "i < length SA"
    and X: "bwt_build d SA BWT sc = Some X" and s: "bwt_is_sampled X i = Some True"
  shows "bwt_get d X i = Some (SA ! i * d)"
proof -
  from bwt_build_facts [OF fit bl, of d sc] X have
    len: "length (bws_marked X) = length SA"
    and vals: "iv_data (bws_samples X) = map (nth SA) (ones (bws_marked X))" by auto
  from s i len have il: "i < length (bws_marked X)" and mi: "bws_marked X ! i"
    by (simp_all add: bwt_is_sampled_def bv_get_def)
  from ones_nth_rank [OF il mi] vals il show ?thesis
    by (simp add: bwt_get_def rank1_def iv_get_def)
qed



text \<open>
  Claim C1 (the sampling returns the suffix array value at every sampled index) fails
  for the BWT-driven sampling: its samples hold \<open>SA[i]\<close> itself, and the access operator
  multiplies the stored sample by the density, as the text-order sampling does for its
  condensed samples. On the example of the source's comment (text \<^verbatim>\<open>ABCDEFABCDEF$\<close>,
  density 4, sample characters B and E) index 0 is sampled, \<open>SA[0] = 12\<close>, and the access
  operator returns 48.
\<close>

theorem bwt_get_scales_stored_sample:
  "map_option (\<lambda>X. (bwt_is_sampled X 0, bwt_get 4 X 0))
     (bwt_build 4 [12, 6, 0, 7, 1, 8, 2, 9, 3, 10, 4, 11, 5] ''FF$AABBCCDDEE'' (Some ''BE''))
   = Some (Some True, Some 48)
   \<and> [12, 6, 0, 7, 1, 8, 2, 9, 3, 10, 4, 11, 5] ! 0 = (12::nat)"
  by code_simp

section \<open>Plain ISA sampling: the entries and the neighbour queries\<close>

lemma iv_size_make: "iv_size (iv_make w m) = m"
  by (simp add: iv_size_def iv_make_def)

lemma zero_fill: "ofold (\<lambda>i v. iv_set v i 0) [0..<k] (iv_make w m) = Some (iv_make w m)" if "k \<le> m"
  using that
proof (induction k)
  case 0
  show ?case by simp
next
  case (Suc k)
  then have "iv_set (iv_make w m) k 0 = Some (iv_make w m)"
    by (simp add: iv_set_def iv_make_def list_update_same_conv)
  with Suc show ?case by (simp add: ofold_snoc)
qed

lemma isa_loop_inv:
  assumes d: "0 < d" and perm: "is_permutation SA" and k: "k \<le> length SA"
    and fitw: "length SA \<le> 2 ^ w" and fitm: "\<forall>j<length SA. SA ! j div d < m"
  shows "\<exists>smp. ofold (isa_step d SA) [0..<k] (iv_make w m) = Some smp
          \<and> iv_width smp = w \<and> length (iv_data smp) = m
          \<and> (\<forall>i<k. SA ! i mod d = 0 \<longrightarrow> iv_data smp ! (SA ! i div d) = i)"
  using k
proof (induction k)
  case 0
  show ?case by (simp add: iv_make_def)
next
  case (Suc k)
  let ?n = "length SA"
  from Suc have kn: "k < ?n" by simp
  from Suc kn obtain smp where
    run: "ofold (isa_step d SA) [0..<k] (iv_make w m) = Some smp"
    and w: "iv_width smp = w" and len: "length (iv_data smp) = m"
    and vals: "\<forall>i<k. SA ! i mod d = 0 \<longrightarrow> iv_data smp ! (SA ! i div d) = i" by auto
  show ?case
  proof (cases "SA ! k mod d = 0")
    case True
    from fitw kn have m: "k mod 2 ^ w = k" by simp
    from fitm kn have im: "SA ! k div d < m" by simp
    let ?smp = "smp\<lparr>iv_data := (iv_data smp)[SA ! k div d := k]\<rparr>"
    have step: "isa_step d SA k smp = Some ?smp"
      using True im len w m by (simp add: isa_step_def iv_set_def)
    have vals': "\<forall>i<Suc k. SA ! i mod d = 0 \<longrightarrow> iv_data ?smp ! (SA ! i div d) = i"
    proof (intro allI impI)
      fix i assume i: "i < Suc k" and mi: "SA ! i mod d = 0"
      show "iv_data ?smp ! (SA ! i div d) = i"
      proof (cases "i = k")
        case True
        with im len show ?thesis by simp
      next
        case False
        with i have ik: "i < k" by simp
        with kn have "SA ! i \<noteq> SA ! k" using perm_nth_inj [OF perm, of i k] by simp
        then have "SA ! i div d \<noteq> SA ! k div d" using multiple_eq [OF mi True] by blast
        with vals ik mi show ?thesis by simp
      qed
    qed
    have "ofold (isa_step d SA) [0..<Suc k] (iv_make w m) = Some ?smp"
      by (simp only: upt_Suc_append [OF le0] ofold_snoc run step option.case)
    with vals' w len show ?thesis by simp
  next
    case False
    have step: "isa_step d SA k smp = Some smp" using False by (simp add: isa_step_def)
    have "ofold (isa_step d SA) [0..<Suc k] (iv_make w m) = Some smp"
      by (simp only: upt_Suc_append [OF le0] ofold_snoc run step option.case)
    with vals w len False show ?thesis by (auto simp: less_Suc_eq)
  qed
qed

lemma isa_sampling_facts:
  assumes d: "0 < d" and perm: "is_permutation SA" and n: "0 < length SA"
  shows "\<exists>smp. isa_sampling d SA = Some smp
          \<and> iv_size smp = (length SA + d - 1) div d
          \<and> (\<forall>k. k * d < length SA \<longrightarrow>
                (\<exists>v. iv_get smp k = Some v \<and> v < length SA \<and> SA ! v = k * d))"
proof -
  let ?n = "length SA"
  let ?m = "(?n - 1) div d + 1"
  let ?w = "hi ?n + 1"
  have fitw: "?n \<le> 2 ^ ?w" using hi_bound [of ?n] by simp
  have fitm: "\<forall>j<?n. SA ! j div d < ?m"
  proof (intro allI impI)
    fix j assume "j < ?n"
    then have "SA ! j \<le> ?n - 1" using perm_nth_less [OF perm, of j] by simp
    then have "SA ! j div d \<le> (?n - 1) div d" by (rule div_le_mono)
    then show "SA ! j div d < ?m" by simp
  qed
  from isa_loop_inv [OF d perm le_refl fitw fitm] obtain smp where
    run: "ofold (isa_step d SA) [0..<?n] (iv_make ?w ?m) = Some smp"
    and len: "length (iv_data smp) = ?m"
    and vals: "\<forall>i<?n. SA ! i mod d = 0 \<longrightarrow> iv_data smp ! (SA ! i div d) = i" by blast
  from n have ge: "?n \<ge> 1" by (simp add: Suc_le_eq)
  have build: "isa_sampling d SA = Some smp"
    by (simp only: isa_sampling_def Let_def ge if_True iv_size_make zero_fill [OF le_refl]
          option.case run)
  have size: "iv_size smp = (?n + d - 1) div d"
    using len ceil_div_pos [OF d n] by (simp add: iv_size_def)
  have ent: "\<exists>v. iv_get smp k = Some v \<and> v < ?n \<and> SA ! v = k * d" if k: "k * d < ?n" for k
  proof -
    from perm_nth_surj [OF perm k] obtain i where i: "i < ?n" "SA ! i = k * d" by blast
    with vals d have "iv_data smp ! k = i" by auto
    moreover have "k < length (iv_data smp)"
      using ceil_div_less [OF d k] size by (simp add: iv_size_def)
    ultimately show ?thesis using i by (simp add: iv_get_def)
  qed
  from build size ent show ?thesis by blast
qed

lemma isa_queries:
  assumes d: "0 < d" and perm: "is_permutation SA" and i: "i < length SA"
    and D: "isa_sampling d SA = Some D"
  shows "\<exists>v. isa_get d D i = Some v \<and> v < length SA \<and> SA ! v = i div d * d"
    and "\<exists>v. isa_sample_leq d D i = Some (v, i div d * d) \<and> v < length SA \<and> SA ! v = i div d * d"
    and "\<exists>v p. isa_sample_qeq d D i = Some (v, p) \<and> v < length SA \<and> SA ! v = p \<and> p mod d = 0
           \<and> (i \<le> p \<or> (p = 0 \<and> i div d + 1 = (length SA + d - 1) div d))"
proof -
  let ?n = "length SA"
  from i have n: "0 < ?n" by linarith
  from isa_sampling_facts [OF d perm n] D have
    size: "iv_size D = (?n + d - 1) div d"
    and ent: "\<And>k. k * d < ?n \<Longrightarrow> \<exists>v. iv_get D k = Some v \<and> v < ?n \<and> SA ! v = k * d" by auto
  have "i div d * d \<le> i" by simp
  with i have "i div d * d < ?n" by linarith
  from ent [OF this] obtain v where v: "iv_get D (i div d) = Some v" "v < ?n" "SA ! v = i div d * d"
    by blast
  then show "\<exists>v. isa_get d D i = Some v \<and> v < ?n \<and> SA ! v = i div d * d"
    by (simp add: isa_get_def)
  from v show "\<exists>v. isa_sample_leq d D i = Some (v, i div d * d) \<and> v < ?n \<and> SA ! v = i div d * d"
    by (simp add: isa_sample_leq_def)
  let ?ci = "(i div d + 1) mod iv_size D"
  from next_block_wraps [OF d i size refl] have
    lt: "?ci * d < ?n" and w: "i \<le> ?ci * d \<or> (?ci * d = 0 \<and> i div d + 1 = iv_size D)" by simp_all
  from ent [OF lt] obtain u where u: "iv_get D ?ci = Some u" "u < ?n" "SA ! u = ?ci * d" by blast
  from block_index_less [OF d i] size have "iv_size D \<noteq> 0" by simp
  with u w size show "\<exists>v p. isa_sample_qeq d D i = Some (v, p) \<and> v < ?n \<and> SA ! v = p \<and> p mod d = 0
           \<and> (i \<le> p \<or> (p = 0 \<and> i div d + 1 = (?n + d - 1) div d))"
    by (simp add: isa_sample_qeq_def Let_def)
qed

section \<open>ISA support of the text-order sampling: the entries and the neighbour queries\<close>

lemma find_unique:
  assumes "x \<in> set xs" "P x" "\<forall>y\<in>set xs. P y \<longrightarrow> y = x"
  shows "find P xs = Some x"
  using assms
proof (induction xs)
  case Nil
  then show ?case by simp
next
  case (Cons a xs)
  show ?case
  proof (cases "P a")
    case True
    with Cons.prems(3) have "a = x" by simp
    with True show ?thesis by simp
  next
    case False
    with Cons.prems have "x \<in> set xs" by auto
    moreover from Cons.prems(3) have "\<forall>y\<in>set xs. P y \<longrightarrow> y = x" by simp
    ultimately have "find P xs = Some x" using Cons.IH Cons.prems(2) by blast
    with False show ?thesis by simp
  qed
qed

lemma text_order_isa_entry:
  assumes d: "0 < d" and perm: "is_permutation SA" and X: "text_order_build d SA = Some X"
    and k: "k * d < length SA"
  shows "\<exists>j v. ip_get (tos_samples X) k = Some j \<and> select1 (tos_marked X) (j + 1) = Some v
           \<and> v < length SA \<and> SA ! v = k * d"
proof -
  define n where "n = length SA"
  define P where "P = (\<lambda>i. SA ! i mod d = 0)"
  define ms where "ms = filter P [0..<n]"
  from text_order_build_eq [OF d perm] obtain smp where
    B: "text_order_build d SA = Some \<lparr>tos_samples = smp, tos_marked = map P [0..<n]\<rparr>"
    and vals: "iv_data smp = map (\<lambda>i. SA ! i div d) ms"
    unfolding n_def P_def ms_def by blast
  from B X have Xs: "tos_samples X = smp" and Xm: "tos_marked X = map P [0..<n]" by simp_all
  have lms: "length ms = (n + d - 1) div d"
    using perm_filter_count [OF perm, of "\<lambda>v. v mod d = 0"] count_multiples [OF d, of n]
    unfolding n_def P_def ms_def by simp
  have dms: "distinct ms" unfolding ms_def by simp
  have msP: "i < n \<and> P i" if "i \<in> set ms" for i using that unfolding ms_def by simp
  from perm_nth_surj [OF perm k] obtain i where i: "i < n" "SA ! i = k * d"
    unfolding n_def by blast
  then have "P i" unfolding P_def by simp
  with i(1) have "i \<in> set ms" unfolding ms_def by simp
  then obtain j where j: "j < length ms" "ms ! j = i" by (metis in_set_conv_nth)
  have kk: "k < length ms" using ceil_div_less [OF d k] lms unfolding n_def by simp
  have "iv_data smp ! j = SA ! i div d" using j vals by simp
  also have "\<dots> = k" using i(2) d by simp
  finally have dj: "iv_data smp ! j = k" .
  have uniq: "\<forall>j'\<in>set [0..<length ms]. iv_data smp ! j' = k \<longrightarrow> j' = j"
  proof (intro ballI impI)
    fix j' assume j': "j' \<in> set [0..<length ms]" and e: "iv_data smp ! j' = k"
    from j' have l: "j' < length ms" by simp
    then have "ms ! j' \<in> set ms" by (rule nth_mem)
    from msP [OF this] have p: "ms ! j' < n" "SA ! (ms ! j') mod d = 0" unfolding P_def by simp_all
    from e l vals have "SA ! (ms ! j') div d = k" by simp
    with p(2) have "SA ! (ms ! j') = k * d"
      using div_mult_mod_eq [of "SA ! (ms ! j')" d] by simp
    with i(2) have "SA ! (ms ! j') = SA ! i" by simp
    with p(1) i(1) have "ms ! j' = i" using perm_nth_inj [OF perm, of "ms ! j'" i]
      unfolding n_def by blast
    with j(2) have "ms ! j' = ms ! j" by simp
    with dms l j(1) show "j' = j" by (simp add: nth_eq_iff_index_eq)
  qed
  have js: "j \<in> set [0..<length ms]" using j(1) by simp
  have "find (\<lambda>j. iv_data smp ! j = k) [0..<length ms] = Some j"
    using js dj uniq by (rule find_unique)
  moreover have "iv_size smp = length ms" using vals by (simp add: iv_size_def)
  ultimately have ip: "ip_get (tos_samples X) k = Some j"
    using kk by (simp add: ip_get_def Xs)
  have om: "ones (tos_marked X) = ms" unfolding Xm ms_def by (rule ones_map)
  have "select1 (tos_marked X) (j + 1) = Some (ones (tos_marked X) ! j)"
    using j(1) by (intro select1_eq) (simp add: om)
  then have "select1 (tos_marked X) (j + 1) = Some i" using j(2) by (simp add: om)
  with ip i show ?thesis unfolding n_def by blast
qed

lemma text_order_samples_size:
  assumes d: "0 < d" and perm: "is_permutation SA" and X: "text_order_build d SA = Some X"
  shows "iv_size (tos_samples X) = (length SA + d - 1) div d"
proof -
  define ms where "ms = filter (\<lambda>i. SA ! i mod d = 0) [0..<length SA]"
  from text_order_build_eq [OF d perm] obtain smp where
    B: "text_order_build d SA
          = Some \<lparr>tos_samples = smp, tos_marked = map (\<lambda>i. SA ! i mod d = 0) [0..<length SA]\<rparr>"
    and vals: "iv_data smp = map (\<lambda>i. SA ! i div d) ms"
    unfolding ms_def by blast
  from B X have Xs: "tos_samples X = smp" by simp
  have "length ms = (length SA + d - 1) div d"
    using perm_filter_count [OF perm, of "\<lambda>v. v mod d = 0"] count_multiples [OF d, of "length SA"]
    unfolding ms_def by simp
  then show ?thesis by (simp add: Xs vals iv_size_def)
qed

lemma text_order_isa_queries:
  assumes d: "0 < d" and perm: "is_permutation SA" and i: "i < length SA"
    and X: "text_order_build d SA = Some X"
  shows "\<exists>v. text_order_isa_get d X i = Some v \<and> v < length SA \<and> SA ! v = i div d * d"
    and "\<exists>v. text_order_isa_sample_leq d X i = Some (v, i div d * d)
           \<and> v < length SA \<and> SA ! v = i div d * d"
    and "\<exists>v p. text_order_isa_sample_qeq d X i = Some (v, p) \<and> v < length SA \<and> SA ! v = p
           \<and> p mod d = 0 \<and> (i \<le> p \<or> (p = 0 \<and> i div d + 1 = (length SA + d - 1) div d))"
proof -
  define n where "n = length SA"
  define m where "m = iv_size (tos_samples X)"
  have size: "m = (n + d - 1) div d"
    unfolding m_def n_def by (rule text_order_samples_size [OF d perm X])
  note ent = text_order_isa_entry [OF d perm X]
  have "i div d * d \<le> i" by simp
  with i have "i div d * d < length SA" by linarith
  from ent [OF this] obtain j v where
    v: "ip_get (tos_samples X) (i div d) = Some j" "select1 (tos_marked X) (j + 1) = Some v"
       "v < length SA" "SA ! v = i div d * d" by blast
  then show "\<exists>v. text_order_isa_get d X i = Some v \<and> v < length SA \<and> SA ! v = i div d * d"
    by (simp add: text_order_isa_get_def)
  from v show "\<exists>v. text_order_isa_sample_leq d X i = Some (v, i div d * d)
           \<and> v < length SA \<and> SA ! v = i div d * d"
    by (simp add: text_order_isa_sample_leq_def)
  define ci where "ci = (i div d + 1) mod m"
  from i have i': "i < n" unfolding n_def .
  from next_block_wraps [OF d i' size ci_def] have
    lt: "ci * d < length SA"
    and w: "i \<le> ci * d \<or> (ci * d = 0 \<and> i div d + 1 = m)" unfolding n_def by simp_all
  from ent [OF lt] obtain j' u where
    u: "ip_get (tos_samples X) ci = Some j'" "select1 (tos_marked X) (j' + 1) = Some u"
       "u < length SA" "SA ! u = ci * d" by blast
  from block_index_less [OF d i'] size have m0: "m \<noteq> 0" by simp
  have q: "text_order_isa_sample_qeq d X i = Some (u, ci * d)"
    using u(1,2) m0 unfolding text_order_isa_sample_qeq_def Let_def m_def [symmetric] ci_def [symmetric]
    by simp
  have md: "ci * d mod d = 0" by simp
  from w size have w': "i \<le> ci * d \<or> (ci * d = 0 \<and> i div d + 1 = (length SA + d - 1) div d)"
    unfolding n_def by simp
  show "\<exists>v p. text_order_isa_sample_qeq d X i = Some (v, p) \<and> v < length SA \<and> SA ! v = p
           \<and> p mod d = 0 \<and> (i \<le> p \<or> (p = 0 \<and> i div d + 1 = (length SA + d - 1) div d))"
    by (intro exI [of _ u] exI [of _ "ci * d"] conjI q u(3) u(4) md w')
qed

section \<open>Fuzzy sampling: the block loop\<close>

lemma fuzzy_scan_fold_inv:
  assumes i: "i < n" and k: "i < k" "k \<le> n"
  shows "\<exists>pm pc. fold (fuzzy_scan_step isa n m) [i + 1..<k] (i, if isa ! i \<ge> m then i else n) = (pm, pc)
           \<and> i \<le> pm \<and> pm < k
           \<and> (pc = n \<longleftrightarrow> (\<forall>p. i \<le> p \<and> p < k \<longrightarrow> isa ! p < m))
           \<and> (pc \<noteq> n \<longrightarrow> i \<le> pc \<and> pc < k \<and> m \<le> isa ! pc)"
  using k
proof (induction k)
  case 0
  then show ?case by simp
next
  case (Suc k)
  show ?case
  proof (cases "i = k")
    case True
    have "\<And>p. i \<le> p \<and> p < Suc i \<longleftrightarrow> p = i" by auto
    with True i show ?thesis by auto
  next
    case False
    with Suc.prems have ik: "i < k" and kn: "k \<le> n" "k < n" by simp_all
    from Suc.IH [OF ik kn(1)] obtain pm pc where
      f: "fold (fuzzy_scan_step isa n m) [i + 1..<k] (i, if isa ! i \<ge> m then i else n) = (pm, pc)"
      and pm: "i \<le> pm" "pm < k"
      and pcn: "pc = n \<longleftrightarrow> (\<forall>p. i \<le> p \<and> p < k \<longrightarrow> isa ! p < m)"
      and pcv: "pc \<noteq> n \<longrightarrow> i \<le> pc \<and> pc < k \<and> m \<le> isa ! pc" by blast
    from ik have up: "[i + 1..<Suc k] = [i + 1..<k] @ [k]" by simp
    define pm' where "pm' = (if isa ! k < isa ! pm then k else pm)"
    define pc' where "pc' = (if isa ! k \<ge> m
         then (if pc = n then k else if isa ! k < isa ! pc then k else pc) else pc)"
    have f': "fold (fuzzy_scan_step isa n m) [i + 1..<Suc k] (i, if isa ! i \<ge> m then i else n) = (pm', pc')"
      unfolding up fold_append comp_def f by (simp add: fuzzy_scan_step_def pm'_def pc'_def)
    have c1: "i \<le> pm' \<and> pm' < Suc k" using pm ik by (simp add: pm'_def)
    have all: "(\<forall>p. i \<le> p \<and> p < Suc k \<longrightarrow> isa ! p < m)
                 \<longleftrightarrow> (\<forall>p. i \<le> p \<and> p < k \<longrightarrow> isa ! p < m) \<and> isa ! k < m"
      using ik by (auto simp: less_Suc_eq)
    have c2: "pc' = n \<longleftrightarrow> (\<forall>p. i \<le> p \<and> p < Suc k \<longrightarrow> isa ! p < m)"
    proof (cases "isa ! k \<ge> m")
      case True
      then have "pc' \<noteq> n" using kn(2) pcv by (auto simp: pc'_def)
      with True show ?thesis unfolding all by simp
    next
      case False
      then have "pc' = pc" by (simp add: pc'_def)
      with False pcn show ?thesis unfolding all by simp
    qed
    have c3: "pc' \<noteq> n \<longrightarrow> i \<le> pc' \<and> pc' < Suc k \<and> m \<le> isa ! pc'"
      using pcv ik by (auto simp: pc'_def)
    from f' c1 c2 c3 show ?thesis by blast
  qed
qed

lemma fuzzy_chosen_facts:
  assumes d: "0 < d" and i: "i < n"
  shows "i \<le> fuzzy_chosen isa n d m i"
    and "fuzzy_chosen isa n d m i < min (i + d) n"
    and "snd (fuzzy_scan isa n d m i) = n \<longleftrightarrow> list_all (\<lambda>p. isa ! p < m) [i..<min (i + d) n]"
    and "\<not> list_all (\<lambda>p. isa ! p < m) [i..<min (i + d) n] \<Longrightarrow> m \<le> isa ! fuzzy_chosen isa n d m i"
proof -
  define e where "e = min (i + d) n"
  have e: "i < e" "e \<le> n" using d i by (simp_all add: e_def)
  from fuzzy_scan_fold_inv [OF i e, of isa m] obtain pm pc where
    f: "fuzzy_scan isa n d m i = (pm, pc)"
    and pm: "i \<le> pm" "pm < e"
    and pcn: "pc = n \<longleftrightarrow> (\<forall>p. i \<le> p \<and> p < e \<longrightarrow> isa ! p < m)"
    and pcv: "pc \<noteq> n \<longrightarrow> i \<le> pc \<and> pc < e \<and> m \<le> isa ! pc"
    unfolding fuzzy_scan_def e_def by blast
  have ch: "fuzzy_chosen isa n d m i = (if pc = n then pm else pc)"
    by (simp add: fuzzy_chosen_def f)
  have la: "list_all (\<lambda>p. isa ! p < m) [i..<e] \<longleftrightarrow> (\<forall>p. i \<le> p \<and> p < e \<longrightarrow> isa ! p < m)"
    by (auto simp: list_all_iff)
  show "i \<le> fuzzy_chosen isa n d m i" using pm pcv by (simp add: ch)
  show "fuzzy_chosen isa n d m i < min (i + d) n" using pm pcv unfolding e_def [symmetric] by (simp add: ch)
  show "snd (fuzzy_scan isa n d m i) = n \<longleftrightarrow> list_all (\<lambda>p. isa ! p < m) [i..<min (i + d) n]"
    unfolding e_def [symmetric] la using pcn by (simp add: f)
  show "m \<le> isa ! fuzzy_chosen isa n d m i" if "\<not> list_all (\<lambda>p. isa ! p < m) [i..<min (i + d) n]"
  proof -
    from that have "\<not> (\<forall>p. i \<le> p \<and> p < e \<longrightarrow> isa ! p < m)"
      unfolding e_def [symmetric] la .
    with pcn have "pc \<noteq> n" by simp
    with pcv show ?thesis by (simp add: ch)
  qed
qed

lemma fuzzy_block_eq:
  assumes d: "0 < d" and i: "i < n"
    and p: "p = fuzzy_chosen isa n d (fs_min_prev_val st) i"
    and b1: "p < length (fs_marked_isa st)"
    and b2: "fs_cnt st < length (iv_data (fs_inv_perm st))"
    and b3: "isa ! p < length (fs_marked_sa st)"
    and b4: "isa ! p < 2 ^ iv_width (fs_inv_perm st)"
  shows "fuzzy_block isa n d i st =
     Some \<lparr>fs_cnt = fs_cnt st + 1,
           fs_runs = (if list_all (\<lambda>q. isa ! q < fs_min_prev_val st) [i..<min (i + d) n]
                      then fs_runs st + 1 else fs_runs st),
           fs_min_prev_val = isa ! p,
           fs_marked_isa = (fs_marked_isa st)[p := True],
           fs_marked_sa = (fs_marked_sa st)[isa ! p := True],
           fs_inv_perm = (fs_inv_perm st)\<lparr>iv_data := (iv_data (fs_inv_perm st))[fs_cnt st := isa ! p]\<rparr>\<rparr>"
proof -
  obtain pm pc where f: "fuzzy_scan isa n d (fs_min_prev_val st) i = (pm, pc)" by (cases "fuzzy_scan isa n d (fs_min_prev_val st) i")
  have ch: "p = (if pc = n then pm else pc)" by (simp add: p fuzzy_chosen_def f)
  have em: "pc = n \<longleftrightarrow> list_all (\<lambda>q. isa ! q < fs_min_prev_val st) [i..<min (i + d) n]"
    using fuzzy_chosen_facts(3) [OF d i, of isa "fs_min_prev_val st"] by (simp add: f)
  have m: "isa ! p mod 2 ^ iv_width (fs_inv_perm st) = isa ! p" using b4 by simp
  show ?thesis
  proof (cases "pc = n")
    case True
    with ch have pp: "pm = p" by simp
    from True em have e: "list_all (\<lambda>q. isa ! q < fs_min_prev_val st) [i..<min (i + d) n]" by simp
    show ?thesis
      unfolding fuzzy_block_def f using True b1 b2 b3 m e
      by (simp add: pp bv_set_def iv_set_def Let_def)
  next
    case False
    with ch have pp: "pc = p" by simp
    from False em have e: "\<not> list_all (\<lambda>q. isa ! q < fs_min_prev_val st) [i..<min (i + d) n]" by simp
    from False pp have pn: "p \<noteq> n" by simp
    show ?thesis
      unfolding fuzzy_block_def f using pn b1 b2 b3 m e
      by (simp add: pp bv_set_def iv_set_def Let_def)
  qed
qed

lemma fuzzy_iter_None:
  assumes "fuzzy_iter isa n d b = None" "b \<le> b'"
  shows "fuzzy_iter isa n d b' = None"
  using assms(2,1) by (induction rule: dec_induct) simp_all

lemma fuzzy_loop_iter:
  assumes d: "0 < d" and B: "B = (n + d - 1) div d"
    and b: "b \<le> B" and st: "fuzzy_iter isa n d b = Some st"
  shows "fuzzy_loop isa n d (b * d) st = fuzzy_iter isa n d B"
  using b st
proof (induction "B - b" arbitrary: b st)
  case 0
  then have bB: "b = B" by simp
  have "\<not> B * d < n" using ceil_div_less_iff [OF d, of B n] B by simp
  then have "fuzzy_loop isa n d (B * d) st = Some st" by (subst fuzzy_loop.simps) simp
  with 0 bB show ?case by simp
next
  case (Suc m)
  then have bB: "b < B" by simp
  then have lt: "b * d < n" using ceil_div_less_iff [OF d, of b n] B by simp
  have it: "fuzzy_iter isa n d (Suc b) = fuzzy_block isa n d (b * d) st"
    using Suc.prems(2) by simp
  have lp: "fuzzy_loop isa n d (b * d) st
              = Option.bind (fuzzy_block isa n d (b * d) st) (\<lambda>st'. fuzzy_loop isa n d (Suc b * d) st')"
    using lt by (subst fuzzy_loop.simps) (simp add: add.commute)
  show ?case
  proof (cases "fuzzy_block isa n d (b * d) st")
    case None
    with it have "fuzzy_iter isa n d (Suc b) = None" by simp
    from fuzzy_iter_None [OF this] bB have "fuzzy_iter isa n d B = None" by simp
    with lp None show ?thesis by simp
  next
    case (Some st')
    with it have it': "fuzzy_iter isa n d (Suc b) = Some st'" by simp
    from Suc.hyps(2) have m: "m = B - Suc b" by simp
    from bB have sb: "Suc b \<le> B" by simp
    from Suc.hyps(1) [OF m sb it'] lp Some show ?thesis by simp
  qed
qed

lemma fuzzy_loop_eq_iter:
  assumes "0 < d"
  shows "fuzzy_loop isa n d 0 (fuzzy_init n d) = fuzzy_iter isa n d ((n + d - 1) div d)"
  using fuzzy_loop_iter [OF assms refl, of 0 n isa "fuzzy_init n d"] by simp

lemma mark_insert:
  assumes "p < n"
  shows "(map (\<lambda>q. q \<in> S) [0..<n])[p := True] = map (\<lambda>q. q \<in> insert p S) [0..<n]"
  using assms by (intro nth_equalityI) (auto simp: nth_list_update)

lemma fuzzy_invariant_init:
  "fuzzy_invariant isa d 0 [] (fuzzy_init (length isa) d)"
proof -
  have "replicate (length isa) False = map (\<lambda>p. False) [0..<length isa]"
    by (simp add: map_replicate_const)
  then show ?thesis by (simp add: fuzzy_invariant_def fuzzy_init_def iv_make_def)
qed

lemma fuzzy_step:
  assumes d: "0 < d" and perm: "is_permutation isa" and b: "b * d < length isa"
    and st: "fuzzy_iter isa (length isa) d b = Some st"
    and inv: "fuzzy_invariant isa d b ps st"
  shows "\<exists>st' p. fuzzy_iter isa (length isa) d (Suc b) = Some st'
           \<and> fuzzy_pos isa d b = Some p
           \<and> fuzzy_invariant isa d (Suc b) (ps @ [p]) st'
           \<and> fs_min_prev_val st' = isa ! p
           \<and> fs_runs st' = (if fuzzy_empty isa d b then fs_runs st + 1 else fs_runs st)
           \<and> (\<not> fuzzy_empty isa d b \<longrightarrow> fs_min_prev_val st \<le> fs_min_prev_val st')"
proof -
  define n where "n = length isa"
  define p where "p = fuzzy_chosen isa n d (fs_min_prev_val st) (b * d)"
  have bn: "b * d < n" using b by (simp add: n_def)
  note cf = fuzzy_chosen_facts [OF d bn, of isa "fs_min_prev_val st"]
  have p1: "b * d \<le> p" and p2: "p < min (b * d + d) n" using cf(1,2) by (simp_all add: p_def)
  then have pn: "p < n" by simp
  then have vn: "isa ! p < n" using perm_nth_less [OF perm] by (simp add: n_def)
  from inv have
    i1: "length ps = b"
    and i2: "\<forall>k<b. k * d \<le> ps ! k \<and> ps ! k < min (k * d + d) n"
    and i3: "fs_cnt st = b"
    and i4: "fs_marked_isa st = map (\<lambda>p. p \<in> set ps) [0..<n]"
    and i5: "fs_marked_sa st = map (\<lambda>v. v \<in> set (map (nth isa) ps)) [0..<n]"
    and i6: "iv_width (fs_inv_perm st) = hi n + 1"
    and i7: "length (iv_data (fs_inv_perm st)) = (n + d - 1) div d"
    and i8: "take b (iv_data (fs_inv_perm st)) = map (nth isa) ps"
    by (simp_all add: fuzzy_invariant_def n_def)
  have bB: "b < (n + d - 1) div d" using d bn by (rule ceil_div_less)
  have b1: "p < length (fs_marked_isa st)" using pn by (simp add: i4)
  have b2: "fs_cnt st < length (iv_data (fs_inv_perm st))" using bB by (simp add: i3 i7)
  have b3: "isa ! p < length (fs_marked_sa st)" using vn by (simp add: i5)
  have b4: "isa ! p < 2 ^ iv_width (fs_inv_perm st)"
    using vn hi_bound [of n] by (simp add: i6)
  define em where "em = list_all (\<lambda>q. isa ! q < fs_min_prev_val st) [b * d..<min (b * d + d) n]"
  define st' where "st' = \<lparr>fs_cnt = fs_cnt st + 1,
           fs_runs = (if em then fs_runs st + 1 else fs_runs st),
           fs_min_prev_val = isa ! p,
           fs_marked_isa = (fs_marked_isa st)[p := True],
           fs_marked_sa = (fs_marked_sa st)[isa ! p := True],
           fs_inv_perm = (fs_inv_perm st)\<lparr>iv_data := (iv_data (fs_inv_perm st))[fs_cnt st := isa ! p]\<rparr>\<rparr>"
  have blk: "fuzzy_block isa n d (b * d) st = Some st'"
    unfolding st'_def em_def by (rule fuzzy_block_eq [OF d bn p_def b1 b2 b3 b4])
  have it: "fuzzy_iter isa (length isa) d (Suc b) = Some st'"
    using st blk by (simp add: n_def)
  have pos: "fuzzy_pos isa d b = Some p" using st by (simp add: fuzzy_pos_def p_def n_def)
  have emp: "fuzzy_empty isa d b = em" using st by (simp add: fuzzy_empty_def em_def n_def)
  have j2: "\<forall>k<Suc b. k * d \<le> (ps @ [p]) ! k \<and> (ps @ [p]) ! k < min (k * d + d) n"
    using i1 i2 p1 p2 by (auto simp: nth_append less_Suc_eq)
  have j4: "fs_marked_isa st' = map (\<lambda>q. q \<in> set (ps @ [p])) [0..<n]"
    using mark_insert [OF pn, of "set ps"] by (simp add: st'_def i4)
  have j5: "fs_marked_sa st' = map (\<lambda>v. v \<in> set (map (nth isa) (ps @ [p]))) [0..<n]"
    using mark_insert [OF vn, of "set (map (nth isa) ps)"] by (simp add: st'_def i5)
  have j8: "take (Suc b) (iv_data (fs_inv_perm st')) = map (nth isa) (ps @ [p])"
    using b2 i8 by (simp add: st'_def i3 take_Suc_conv_app_nth)
  have inv': "fuzzy_invariant isa d (Suc b) (ps @ [p]) st'"
    unfolding fuzzy_invariant_def n_def [symmetric]
    using i1 j2 j4 j5 j8 i6 i7 by (simp add: st'_def i3)
  have mono: "\<not> fuzzy_empty isa d b \<longrightarrow> fs_min_prev_val st \<le> fs_min_prev_val st'"
    using cf(4) by (simp add: emp em_def st'_def p_def)
  have r: "fs_runs st' = (if fuzzy_empty isa d b then fs_runs st + 1 else fs_runs st)"
    by (simp add: st'_def emp)
  have mp: "fs_min_prev_val st' = isa ! p" by (simp add: st'_def)
  from it pos inv' mp r mono show ?thesis by blast
qed

lemma fuzzy_iter_inv:
  assumes d: "0 < d" and perm: "is_permutation isa"
    and b: "b \<le> (length isa + d - 1) div d"
  shows "\<exists>st ps. fuzzy_iter isa (length isa) d b = Some st
           \<and> fuzzy_invariant isa d b ps st
           \<and> (\<forall>k<b. fuzzy_pos isa d k = Some (ps ! k))
           \<and> fs_runs st = 1 + length (filter (fuzzy_empty isa d) [0..<b])"
  using b
proof (induction b)
  case 0
  have "fs_runs (fuzzy_init (length isa) d) = 1" by (simp add: fuzzy_init_def)
  with fuzzy_invariant_init [of isa d] show ?case by auto
next
  case (Suc b)
  then have bB: "b < (length isa + d - 1) div d" by simp
  then have bn: "b * d < length isa" using ceil_div_less_iff [OF d] by simp
  from Suc.IH bB obtain st ps where
    st: "fuzzy_iter isa (length isa) d b = Some st"
    and inv: "fuzzy_invariant isa d b ps st"
    and pos: "\<forall>k<b. fuzzy_pos isa d k = Some (ps ! k)"
    and runs: "fs_runs st = 1 + length (filter (fuzzy_empty isa d) [0..<b])" by auto
  from fuzzy_step [OF d perm bn st inv] obtain st' p where
    st': "fuzzy_iter isa (length isa) d (Suc b) = Some st'"
    and p: "fuzzy_pos isa d b = Some p"
    and inv': "fuzzy_invariant isa d (Suc b) (ps @ [p]) st'"
    and r: "fs_runs st' = (if fuzzy_empty isa d b then fs_runs st + 1 else fs_runs st)" by blast
  from inv have lps: "length ps = b" by (simp add: fuzzy_invariant_def)
  have pos': "\<forall>k<Suc b. fuzzy_pos isa d k = Some ((ps @ [p]) ! k)"
    using pos p lps by (auto simp: nth_append less_Suc_eq)
  have runs': "fs_runs st' = 1 + length (filter (fuzzy_empty isa d) [0..<Suc b])"
    using r runs by simp
  from st' inv' pos' runs' show ?case by blast
qed

lemma fuzzy_monotone:
  assumes d: "0 < d" and perm: "is_permutation isa"
    and b: "b < (length isa + d - 1) div d" and ne: "\<not> fuzzy_empty isa d b"
  shows "\<exists>st st'. fuzzy_iter isa (length isa) d b = Some st
           \<and> fuzzy_iter isa (length isa) d (Suc b) = Some st'
           \<and> fs_min_prev_val st \<le> fs_min_prev_val st'"
proof -
  from b have "b \<le> (length isa + d - 1) div d" by simp
  from fuzzy_iter_inv [OF d perm this] obtain st ps where
    st: "fuzzy_iter isa (length isa) d b = Some st"
    and inv: "fuzzy_invariant isa d b ps st" by blast
  from b have bn: "b * d < length isa" using ceil_div_less_iff [OF d] by simp
  from fuzzy_step [OF d perm bn st inv] ne st show ?thesis by blast
qed

lemma fuzzy_loop_facts:
  assumes d: "0 < d" and perm: "is_permutation isa"
  shows "\<exists>st ps. fuzzy_loop isa (length isa) d 0 (fuzzy_init (length isa) d) = Some st
           \<and> fuzzy_invariant isa d ((length isa + d - 1) div d) ps st
           \<and> (\<forall>k<(length isa + d - 1) div d. fuzzy_pos isa d k = Some (ps ! k))
           \<and> fs_runs st = 1 + fuzzy_empty_blocks isa d"
  unfolding fuzzy_loop_eq_iter [OF d] fuzzy_empty_blocks_def
  by (rule fuzzy_iter_inv [OF d perm le_refl])

lemma map_take_update:
  assumes "k < length xs"
  shows "(map f (take k xs) @ drop k xs)[k := f (xs ! k)] = map f (take (Suc k) xs) @ drop (Suc k) xs"
proof -
  from assms have dr: "drop k xs = xs ! k # drop (Suc k) xs" by (simp add: Cons_nth_drop_Suc)
  from assms have lk: "length (map f (take k xs)) = k" by simp
  have "(map f (take k xs) @ xs ! k # drop (Suc k) xs)[k := f (xs ! k)]
          = map f (take k xs) @ f (xs ! k) # drop (Suc k) xs"
    using list_update_length [of "map f (take k xs)" "xs ! k" "drop (Suc k) xs" "f (xs ! k)"]
    unfolding lk .
  then show ?thesis using assms by (simp add: dr take_Suc_conv_app_nth)
qed

lemma fuzzy_rank_loop:
  assumes r: "\<forall>j<length (iv_data v). iv_data v ! j \<le> length bv"
    and w: "\<forall>j<length (iv_data v). iv_data v ! j < 2 ^ iv_width v"
    and k: "k \<le> length (iv_data v)"
  shows "ofold (fuzzy_rank_step bv) [0..<k] v
           = Some (v\<lparr>iv_data := map (\<lambda>x. length (filter (\<lambda>j. bv ! j) [0..<x])) (take k (iv_data v))
                                  @ drop k (iv_data v)\<rparr>)"
  using k
proof (induction k)
  case 0
  show ?case by simp
next
  case (Suc k)
  define rk where "rk = (\<lambda>x. length (filter (\<lambda>j. bv ! j) [0..<x]))"
  define xs where "xs = iv_data v"
  from Suc have kl: "k < length xs" by (simp add: xs_def)
  define u where "u = v\<lparr>iv_data := map rk (take k xs) @ drop k xs\<rparr>"
  from Suc kl have run: "ofold (fuzzy_rank_step bv) [0..<k] v = Some u"
    by (simp add: u_def rk_def xs_def)
  have uk: "iv_data u ! k = xs ! k" using kl by (simp add: u_def nth_append)
  have ul: "k < length (iv_data u)" using kl by (simp add: u_def)
  have rdef: "rank1 bv (xs ! k) = Some (rk (xs ! k))"
    using r kl by (simp add: rank1_def rk_def xs_def)
  have "rk (xs ! k) \<le> xs ! k" unfolding rk_def using length_filter_le [of _ "[0..<xs ! k]"] by simp
  also have "xs ! k < 2 ^ iv_width v" using w kl by (simp add: xs_def)
  finally have fit: "rk (xs ! k) mod 2 ^ iv_width u = rk (xs ! k)" by (simp add: u_def)
  have step: "fuzzy_rank_step bv k u = Some (u\<lparr>iv_data := (iv_data u)[k := rk (xs ! k)]\<rparr>)"
    using ul uk rdef fit by (simp add: fuzzy_rank_step_def iv_get_def iv_set_def)
  have upd: "(iv_data u)[k := rk (xs ! k)] = map rk (take (Suc k) xs) @ drop (Suc k) xs"
    using map_take_update [OF kl, of rk] by (simp add: u_def)
  have "ofold (fuzzy_rank_step bv) [0..<Suc k] v = Some (u\<lparr>iv_data := (iv_data u)[k := rk (xs ! k)]\<rparr>)"
    by (simp only: upt_Suc_append [OF le0] ofold_snoc run step option.case)
  then show ?case unfolding upd by (simp add: u_def rk_def xs_def)
qed

section \<open>Fuzzy sampling: the structure that is built\<close>

lemma fuzzy_build_eq:
  assumes d: "0 < d" and perm: "is_permutation isa"
  shows "\<exists>ps. in_blocks (length isa) d ps
           \<and> (\<forall>k<length ps. fuzzy_pos isa d k = Some (ps ! k))
           \<and> fuzzy_build d isa = Some (fuzzy_of_positions isa ps)"
proof -
  define n where "n = length isa"
  define B where "B = (n + d - 1) div d"
  from fuzzy_loop_facts [OF d perm] obtain st ps where
    lp: "fuzzy_loop isa n d 0 (fuzzy_init n d) = Some st"
    and inv: "fuzzy_invariant isa d B ps st"
    and pos: "\<forall>k<B. fuzzy_pos isa d k = Some (ps ! k)"
    unfolding n_def B_def by blast
  define vs where "vs = map (nth isa) ps"
  from inv have
    i1: "length ps = B"
    and i2: "\<forall>k<B. k * d \<le> ps ! k \<and> ps ! k < min (k * d + d) n"
    and i4: "fs_marked_isa st = map (\<lambda>p. p \<in> set ps) [0..<n]"
    and i5: "fs_marked_sa st = map (\<lambda>v. v \<in> set vs) [0..<n]"
    and i6: "iv_width (fs_inv_perm st) = hi n + 1"
    and i7: "length (iv_data (fs_inv_perm st)) = B"
    and i8: "take B (iv_data (fs_inv_perm st)) = vs"
    by (simp_all add: fuzzy_invariant_def n_def B_def vs_def)
  from i7 i8 have data: "iv_data (fs_inv_perm st) = vs" by simp
  have ib: "in_blocks n d ps" using i1 i2 by (simp add: in_blocks_def B_def)
  have vn: "\<forall>j<length vs. vs ! j < n"
  proof (intro allI impI)
    fix j assume "j < length vs"
    then have j: "j < B" by (simp add: vs_def i1)
    with i2 have "ps ! j < n" by simp
    then have "isa ! (ps ! j) < n" using perm_nth_less [OF perm] by (simp add: n_def)
    then show "vs ! j < n" using j by (simp add: vs_def i1)
  qed
  have r: "\<forall>j<length (iv_data (fs_inv_perm st)). iv_data (fs_inv_perm st) ! j \<le> length (fs_marked_sa st)"
    using vn by (simp add: data i5 less_imp_le)
  have w: "\<forall>j<length (iv_data (fs_inv_perm st)). iv_data (fs_inv_perm st) ! j < 2 ^ iv_width (fs_inv_perm st)"
  proof (intro allI impI)
    fix j assume "j < length (iv_data (fs_inv_perm st))"
    with vn have "iv_data (fs_inv_perm st) ! j < n" by (simp add: data)
    also have "n < 2 ^ (hi n + 1)" by (rule hi_bound)
    finally show "iv_data (fs_inv_perm st) ! j < 2 ^ iv_width (fs_inv_perm st)" by (simp add: i6)
  qed
  define rk where "rk = (\<lambda>x. length (filter (\<lambda>j. fs_marked_sa st ! j) [0..<x]))"
  have rl: "ofold (fuzzy_rank_step (fs_marked_sa st)) [0..<iv_size (fs_inv_perm st)] (fs_inv_perm st)
              = Some ((fs_inv_perm st)\<lparr>iv_data := map rk vs\<rparr>)"
    using fuzzy_rank_loop [OF r w le_refl] by (simp add: iv_size_def data rk_def)
  have rkeq: "map rk vs = map (\<lambda>x. length (filter (\<lambda>j. j \<in> set vs) [0..<x])) vs"
  proof (rule map_cong [OF refl])
    fix x assume "x \<in> set vs"
    then have xn: "x < n" using vn by (auto simp: in_set_conv_nth)
    have "filter (\<lambda>j. fs_marked_sa st ! j) [0..<x] = filter (\<lambda>j. j \<in> set vs) [0..<x]"
      using xn by (intro filter_cong) (simp_all add: i5)
    then show "rk x = length (filter (\<lambda>j. j \<in> set vs) [0..<x])" by (simp add: rk_def)
  qed
  have fo: "fuzzy_of_positions isa ps =
      \<lparr>fz_marked_sa = map (\<lambda>v. v \<in> set vs) [0..<n],
       fz_marked_isa = map (\<lambda>p. p \<in> set ps) [0..<n],
       fz_inv_perm = map (\<lambda>x. length (filter (\<lambda>j. j \<in> set vs) [0..<x])) vs\<rparr>"
    by (simp add: fuzzy_of_positions_def vs_def n_def)
  have "fuzzy_build d isa = Some (fuzzy_of_positions isa ps)"
    unfolding fuzzy_build_def Let_def n_def [symmetric] lp option.case rl fo
    by (simp add: bit_compress_def i4 i5 rkeq)
  with ib pos i1 show ?thesis unfolding n_def by auto
qed

lemma in_blocks_less:
  assumes d: "0 < d" and ib: "in_blocks n d ps" and k: "k < k'" "k' < length ps"
  shows "ps ! k < ps ! k'"
proof -
  from ib k have "ps ! k < k * d + d" by (simp add: in_blocks_def)
  also have "k * d + d = Suc k * d" by simp
  also have "\<dots> \<le> k' * d" using k(1) by (intro mult_le_mono1) simp
  also have "\<dots> \<le> ps ! k'" using ib k(2) by (simp add: in_blocks_def)
  finally show ?thesis .
qed

lemma in_blocks_sorted:
  assumes d: "0 < d" and ib: "in_blocks n d ps"
  shows "sorted ps" and "distinct ps" and "\<forall>p\<in>set ps. p < n"
proof -
  have sw: "sorted_wrt (<) ps"
    unfolding sorted_wrt_iff_nth_less using in_blocks_less [OF d ib] by blast
  then show "sorted ps" by (simp add: strict_sorted_iff)
  from sw show "distinct ps" by (simp add: strict_sorted_iff)
  show "\<forall>p\<in>set ps. p < n" using ib by (auto simp: in_blocks_def in_set_conv_nth)
qed

lemma fuzzy_marked_isa_ones:
  assumes d: "0 < d" and ib: "in_blocks (length isa) d ps"
  shows "ones (fz_marked_isa (fuzzy_of_positions isa ps)) = ps"
proof -
  note s = in_blocks_sorted [OF d ib]
  have "set ps = {i. i < length (fz_marked_isa (fuzzy_of_positions isa ps))
                    \<and> fz_marked_isa (fuzzy_of_positions isa ps) ! i}"
    using s(3) by (auto simp: fuzzy_of_positions_def)
  with s(1,2) show ?thesis by (intro ones_unique)
qed

lemma filter_index_unique:
  assumes "distinct xs" "k < length xs"
  shows "filter (\<lambda>i. xs ! i = xs ! k) [0..<length xs] = [k]"
proof -
  have "set (filter (\<lambda>i. xs ! i = xs ! k) [0..<length xs]) = set [k]"
    using assms by (auto simp: nth_eq_iff_index_eq)
  moreover have "sorted (filter (\<lambda>i. xs ! i = xs ! k) [0..<length xs])" by (simp add: sorted_wrt_filter)
  moreover have "distinct (filter (\<lambda>i. xs ! i = xs ! k) [0..<length xs])" by simp
  ultimately show ?thesis
    using sorted_distinct_set_unique [of "filter (\<lambda>i. xs ! i = xs ! k) [0..<length xs]" "[k]"] by simp
qed

lemma fuzzy_values_distinct:
  assumes d: "0 < d" and perm: "is_permutation isa" and ib: "in_blocks (length isa) d ps"
  shows "distinct (map (nth isa) ps)" and "\<forall>v\<in>set (map (nth isa) ps). v < length isa"
proof -
  note s = in_blocks_sorted [OF d ib]
  have "inj_on (nth isa) (set ps)"
    using s(3) perm_nth_inj [OF perm] by (intro inj_onI) blast
  with s(2) show "distinct (map (nth isa) ps)" by (simp add: distinct_map)
  show "\<forall>v\<in>set (map (nth isa) ps). v < length isa"
    using s(3) perm_nth_less [OF perm] by auto
qed

lemma fuzzy_marked_sa_ones:
  assumes d: "0 < d" and perm: "is_permutation isa" and ib: "in_blocks (length isa) d ps"
  shows "set (ones (fz_marked_sa (fuzzy_of_positions isa ps))) = set (map (nth isa) ps)"
    and "length (ones (fz_marked_sa (fuzzy_of_positions isa ps))) = length ps"
proof -
  define vs where "vs = map (nth isa) ps"
  define msa where "msa = fz_marked_sa (fuzzy_of_positions isa ps)"
  have msa: "msa = map (\<lambda>v. v \<in> set vs) [0..<length isa]"
    by (simp add: msa_def fuzzy_of_positions_def vs_def)
  note v = fuzzy_values_distinct [OF d perm ib, folded vs_def]
  show s: "set (ones msa) = set vs" using v(2) by (auto simp: set_ones msa)
  have "length (ones msa) = card (set (ones msa))" using ones_distinct by (simp add: distinct_card)
  also have "\<dots> = card (set vs)" by (simp add: s)
  also have "\<dots> = length vs" using v(1) by (simp add: distinct_card)
  finally show "length (ones msa) = length ps" by (simp add: vs_def)
qed

lemma fuzzy_inv_perm_entry:
  assumes d: "0 < d" and perm: "is_permutation isa" and ib: "in_blocks (length isa) d ps"
    and k: "k < length ps"
  shows "fz_inv_perm (fuzzy_of_positions isa ps) ! k < length ps"
    and "ones (fz_marked_sa (fuzzy_of_positions isa ps)) ! (fz_inv_perm (fuzzy_of_positions isa ps) ! k)
           = isa ! (ps ! k)"
    and "rank1 (fz_marked_sa (fuzzy_of_positions isa ps)) (isa ! (ps ! k))
           = Some (fz_inv_perm (fuzzy_of_positions isa ps) ! k)"
proof -
  define vs where "vs = map (nth isa) ps"
  define msa where "msa = fz_marked_sa (fuzzy_of_positions isa ps)"
  define v where "v = isa ! (ps ! k)"
  define r where "r = fz_inv_perm (fuzzy_of_positions isa ps) ! k"
  have msa: "msa = map (\<lambda>v. v \<in> set vs) [0..<length isa]"
    by (simp add: msa_def fuzzy_of_positions_def vs_def)
  have vk: "vs ! k = v" using k by (simp add: vs_def v_def)
  then have vin: "v \<in> set vs" using k by (metis length_map nth_mem vs_def)
  with fuzzy_values_distinct(2) [OF d perm ib] have vn: "v < length isa" unfolding vs_def by blast
  have vl: "v < length msa" and mv: "msa ! v" using vn vin by (simp_all add: msa)
  have "filter (\<lambda>j. j \<in> set vs) [0..<v] = filter (\<lambda>j. msa ! j) [0..<v]"
    using vn by (intro filter_cong) (simp_all add: msa)
  then have r: "r = length (filter (\<lambda>j. msa ! j) [0..<v])"
    using k by (simp add: r_def fuzzy_of_positions_def vs_def v_def)
  from ones_nth_rank [OF vl mv] have "r < length (ones msa)" and o: "ones msa ! r = v"
    by (simp_all add: r)
  with fuzzy_marked_sa_ones(2) [OF d perm ib] show "fz_inv_perm (fuzzy_of_positions isa ps) ! k < length ps"
    by (simp add: msa_def r_def)
  from o show "ones (fz_marked_sa (fuzzy_of_positions isa ps)) ! (fz_inv_perm (fuzzy_of_positions isa ps) ! k)
           = isa ! (ps ! k)" by (simp add: msa_def r_def v_def)
  show "rank1 (fz_marked_sa (fuzzy_of_positions isa ps)) (isa ! (ps ! k))
           = Some (fz_inv_perm (fuzzy_of_positions isa ps) ! k)"
    using vl r by (simp add: rank1_def msa_def [symmetric] v_def [symmetric] r_def [symmetric])
qed

lemma fuzzy_inv_perm_permutation:
  assumes d: "0 < d" and perm: "is_permutation isa" and ib: "in_blocks (length isa) d ps"
  shows "is_permutation (fz_inv_perm (fuzzy_of_positions isa ps))"
    and "length (fz_inv_perm (fuzzy_of_positions isa ps)) = length ps"
proof -
  define ip where "ip = fz_inv_perm (fuzzy_of_positions isa ps)"
  define os where "os = ones (fz_marked_sa (fuzzy_of_positions isa ps))"
  show len: "length (fz_inv_perm (fuzzy_of_positions isa ps)) = length ps"
    by (simp add: fuzzy_of_positions_def)
  note e = fuzzy_inv_perm_entry [OF d perm ib, folded ip_def os_def]
  note v = fuzzy_values_distinct [OF d perm ib]
  have "distinct ip"
    unfolding distinct_conv_nth
  proof (intro allI impI)
    fix i j assume i: "i < length ip" and j: "j < length ip" and ne: "i \<noteq> j"
    from i j have i': "i < length ps" and j': "j < length ps" by (simp_all add: ip_def len)
    from v(1) i' j' ne have "isa ! (ps ! i) \<noteq> isa ! (ps ! j)"
      using nth_eq_iff_index_eq [of "map (nth isa) ps" i j] by simp
    with e(2) [OF i'] e(2) [OF j'] show "ip ! i \<noteq> ip ! j" by metis
  qed
  moreover have "\<forall>i<length ip. ip ! i < length ip"
    using e(1) by (simp add: ip_def len)
  ultimately show "is_permutation (fz_inv_perm (fuzzy_of_positions isa ps))"
    by (simp add: is_permutation_def list_all_length ip_def)
qed

lemma fuzzy_select_isa:
  assumes d: "0 < d" and ib: "in_blocks (length isa) d ps" and k: "k < length ps"
  shows "select1 (fz_marked_isa (fuzzy_of_positions isa ps)) (k + 1) = Some (ps ! k)"
  using select1_eq [of k "fz_marked_isa (fuzzy_of_positions isa ps)"] k
  by (simp add: fuzzy_marked_isa_ones [OF d ib])

lemma fuzzy_isa_result_eq:
  assumes d: "0 < d" and perm: "is_permutation isa" and ib: "in_blocks (length isa) d ps"
    and k: "k < length ps"
  shows "fuzzy_isa_result (fuzzy_of_positions isa ps) k j = Some (isa ! (ps ! k), j)"
proof -
  define X where "X = fuzzy_of_positions isa ps"
  define r where "r = fz_inv_perm X ! k"
  note e = fuzzy_inv_perm_entry [OF d perm ib k, folded X_def r_def]
  have "length (fz_inv_perm X) = length ps" by (simp add: X_def fuzzy_of_positions_def)
  with k have inv: "fuzzy_inv X k = Some r" by (simp add: fuzzy_inv_def wt_access_def r_def)
  have "r < length (ones (fz_marked_sa X))"
    using e(1) fuzzy_marked_sa_ones(2) [OF d perm ib] by (simp add: X_def r_def)
  from select1_eq [OF this] e(2) have "select1 (fz_marked_sa X) (r + 1) = Some (isa ! (ps ! k))"
    by (simp add: r_def)
  with inv show ?thesis by (simp add: fuzzy_isa_result_def X_def [symmetric])
qed

lemma fuzzy_get_eq:
  assumes d: "0 < d" and perm: "is_permutation isa" and ib: "in_blocks (length isa) d ps"
    and k: "k < length ps"
  shows "fuzzy_get (fuzzy_of_positions isa ps) (isa ! (ps ! k)) = Some (ps ! k)"
proof -
  define X where "X = fuzzy_of_positions isa ps"
  define ip where "ip = fz_inv_perm X"
  note e = fuzzy_inv_perm_entry [OF d perm ib k, folded X_def ip_def]
  note pm = fuzzy_inv_perm_permutation [OF d perm ib, folded X_def ip_def]
  from pm(1) have dist: "distinct ip" by (simp add: is_permutation_def)
  from k pm(2) have kl: "k < length ip" by simp
  have "wt_select ip 1 (ip ! k) = Some k"
    using filter_index_unique [OF dist kl] by (simp add: wt_select_def)
  with e(3) fuzzy_select_isa [OF d ib k] show ?thesis
    by (simp add: fuzzy_get_def X_def [symmetric] ip_def [symmetric])
qed

lemma fuzzy_marked_sa_iff:
  assumes "v < length isa"
  shows "fz_marked_sa (fuzzy_of_positions isa ps) ! v \<longleftrightarrow> (\<exists>k<length ps. isa ! (ps ! k) = v)"
proof -
  have "v \<in> set (map (nth isa) ps) \<longleftrightarrow> (\<exists>k<length ps. isa ! (ps ! k) = v)"
    unfolding in_set_conv_nth by auto
  then show ?thesis using assms by (simp add: fuzzy_of_positions_def del: set_map)
qed

lemma fuzzy_marked_isa_iff:
  assumes "p < length isa"
  shows "fz_marked_isa (fuzzy_of_positions isa ps) ! p \<longleftrightarrow> (\<exists>k<length ps. ps ! k = p)"
  using assms by (auto simp: fuzzy_of_positions_def in_set_conv_nth)

lemma in_blocks_unique:
  assumes d: "0 < d" and ib: "in_blocks n d ps" and k: "k < length ps" and b: "b < length ps"
    and q: "b * d \<le> ps ! k" "ps ! k < b * d + d"
  shows "k = b"
proof (rule ccontr)
  assume ne: "k \<noteq> b"
  show False
  proof (cases "k < b")
    case True
    from in_blocks_less [OF d ib True b] have "ps ! k < ps ! b" .
    have "ps ! k < k * d + d" using ib k by (simp add: in_blocks_def)
    also have "k * d + d = Suc k * d" by simp
    also have "\<dots> \<le> b * d" using True by (intro mult_le_mono1) simp
    finally show False using q(1) by simp
  next
    case False
    with ne have bk: "b < k" by simp
    have "b * d + d = Suc b * d" by simp
    also have "\<dots> \<le> k * d" using bk by (intro mult_le_mono1) simp
    also have "\<dots> \<le> ps ! k" using ib k by (simp add: in_blocks_def)
    finally show False using q(2) by simp
  qed
qed

lemma fuzzy_build_counts:
  assumes d: "0 < d" and perm: "is_permutation isa"
  shows "\<exists>X. fuzzy_build d isa = Some X
           \<and> length (fz_marked_sa X) = length isa
           \<and> length (fz_marked_isa X) = length isa
           \<and> popcount (fz_marked_sa X) = (length isa + d - 1) div d
           \<and> popcount (fz_marked_isa X) = (length isa + d - 1) div d
           \<and> length (fz_inv_perm X) = (length isa + d - 1) div d
           \<and> is_permutation (fz_inv_perm X)"
proof -
  from fuzzy_build_eq [OF d perm] obtain ps where
    ib: "in_blocks (length isa) d ps"
    and X: "fuzzy_build d isa = Some (fuzzy_of_positions isa ps)" by blast
  define X where "X = fuzzy_of_positions isa ps"
  from ib have B: "length ps = (length isa + d - 1) div d" by (simp add: in_blocks_def)
  have c1: "length (fz_marked_sa X) = length isa" by (simp add: X_def fuzzy_of_positions_def)
  have c2: "length (fz_marked_isa X) = length isa" by (simp add: X_def fuzzy_of_positions_def)
  have c3: "popcount (fz_marked_sa X) = (length isa + d - 1) div d"
    using fuzzy_marked_sa_ones(2) [OF d perm ib] B by (simp add: popcount_ones X_def)
  have c4: "popcount (fz_marked_isa X) = (length isa + d - 1) div d"
    using fuzzy_marked_isa_ones [OF d ib] B by (simp add: popcount_ones [symmetric] X_def)
  have c5: "length (fz_inv_perm X) = (length isa + d - 1) div d"
    using fuzzy_inv_perm_permutation(2) [OF d perm ib] B by (simp add: X_def)
  have c6: "is_permutation (fz_inv_perm X)"
    using fuzzy_inv_perm_permutation(1) [OF d perm ib] by (simp add: X_def)
  from X c1 c2 c3 c4 c5 c6 show ?thesis unfolding X_def by blast
qed

lemma fuzzy_build_blocks:
  assumes d: "0 < d" and perm: "is_permutation isa"
  shows "\<exists>X. fuzzy_build d isa = Some X
           \<and> (\<forall>b<(length isa + d - 1) div d. \<exists>p.
                  fuzzy_pos isa d b = Some p
                \<and> b * d \<le> p \<and> p < min ((b + 1) * d) (length isa)
                \<and> fz_marked_isa X ! p
                \<and> (\<forall>q. b * d \<le> q \<and> q < min ((b + 1) * d) (length isa) \<and> fz_marked_isa X ! q
                       \<longrightarrow> q = p)
                \<and> select1 (fz_marked_isa X) (b + 1) = Some p)
           \<and> (\<forall>b b'. b < b' \<and> b' < (length isa + d - 1) div d \<longrightarrow>
                 (\<exists>p p'. select1 (fz_marked_isa X) (b + 1) = Some p
                        \<and> select1 (fz_marked_isa X) (b' + 1) = Some p' \<and> p < p'))"
proof -
  define n where "n = length isa"
  define B where "B = (n + d - 1) div d"
  from fuzzy_build_eq [OF d perm] obtain ps where
    ib: "in_blocks n d ps"
    and pos: "\<forall>k<length ps. fuzzy_pos isa d k = Some (ps ! k)"
    and X: "fuzzy_build d isa = Some (fuzzy_of_positions isa ps)" unfolding n_def by blast
  define X where "X = fuzzy_of_positions isa ps"
  from ib have lB: "length ps = B" by (simp add: in_blocks_def B_def)
  have sel: "select1 (fz_marked_isa X) (k + 1) = Some (ps ! k)" if "k < B" for k
    using fuzzy_select_isa [OF d ib [unfolded n_def]] that lB by (simp add: X_def)
  have blk: "\<exists>p. fuzzy_pos isa d b = Some p
                \<and> b * d \<le> p \<and> p < min ((b + 1) * d) n
                \<and> fz_marked_isa X ! p
                \<and> (\<forall>q. b * d \<le> q \<and> q < min ((b + 1) * d) n \<and> fz_marked_isa X ! q \<longrightarrow> q = p)
                \<and> select1 (fz_marked_isa X) (b + 1) = Some p" if b: "b < B" for b
  proof -
    from b lB have bl: "b < length ps" by simp
    from ib bl have r0: "b * d \<le> ps ! b \<and> ps ! b < min (b * d + d) n"
      unfolding in_blocks_def by blast
    have bd: "(b + 1) * d = b * d + d" by simp
    from r0 have r: "b * d \<le> ps ! b" "ps ! b < min ((b + 1) * d) n"
      unfolding bd by simp_all
    then have pn: "ps ! b < length isa" by (simp add: n_def)
    have m: "fz_marked_isa X ! (ps ! b)"
      unfolding X_def fuzzy_marked_isa_iff [OF pn] using bl by blast
    have u: "\<forall>q. b * d \<le> q \<and> q < min ((b + 1) * d) n \<and> fz_marked_isa X ! q \<longrightarrow> q = ps ! b"
    proof (intro allI impI)
      fix q assume q: "b * d \<le> q \<and> q < min ((b + 1) * d) n \<and> fz_marked_isa X ! q"
      then have qn: "q < length isa" by (simp add: n_def)
      from q obtain k where k: "k < length ps" "ps ! k = q"
        unfolding X_def fuzzy_marked_isa_iff [OF qn] by blast
      from q k have "b * d \<le> ps ! k" "ps ! k < b * d + d" by simp_all
      from in_blocks_unique [OF d ib k(1) bl this] k(2) show "q = ps ! b" by simp
    qed
    from pos bl r m u sel [OF b] show ?thesis by blast
  qed
  have ord: "\<exists>p p'. select1 (fz_marked_isa X) (b + 1) = Some p
                        \<and> select1 (fz_marked_isa X) (b' + 1) = Some p' \<and> p < p'"
    if "b < b' \<and> b' < B" for b b'
  proof -
    from that have b: "b < B" and b': "b' < B" and lt: "b < b'" by simp_all
    from in_blocks_less [OF d ib lt] b' lB have "ps ! b < ps ! b'" by simp
    with sel [OF b] sel [OF b'] show ?thesis by blast
  qed
  from X blk ord show ?thesis unfolding X_def n_def B_def by blast
qed

section \<open>Fuzzy sampling: counts, blocks and runs\<close>

text \<open>
  Claim C3. After a fuzzy sampling is built with density \<open>d \<ge> 1\<close> from an inverse suffix
  array that is a permutation of \<open>[0, n)\<close>, with \<open>B = \<lceil>n / d\<rceil>\<close>: \<open>marked_sa\<close> and
  \<open>marked_isa\<close> each contain exactly \<open>B\<close> ones, and the rank-compressed vector \<open>inv_perm\<close>
  that the wavelet tree stores is a permutation of \<open>[0, B)\<close>.
\<close>

theorem fuzzy_build_popcounts_and_permutation:
  assumes "1 \<le> d" and "is_permutation ISA" and "1 \<le> length ISA"
  shows "\<exists>X. fuzzy_build d ISA = Some X
           \<and> popcount (fz_marked_sa X) = (length ISA + d - 1) div d
           \<and> popcount (fz_marked_isa X) = (length ISA + d - 1) div d
           \<and> length (fz_inv_perm X) = (length ISA + d - 1) div d
           \<and> is_permutation (fz_inv_perm X)"
proof -
  from assms(1) have d: "0 < d" by simp
  from fuzzy_build_counts [OF d assms(2)] show ?thesis by blast
qed

theorem fuzzy_build_popcounts_and_permutation_witness:
  "\<exists>X. fuzzy_build 2 [1, 2, 0] = Some X
           \<and> popcount (fz_marked_sa X) = 2
           \<and> popcount (fz_marked_isa X) = 2
           \<and> length (fz_inv_perm X) = 2
           \<and> is_permutation (fz_inv_perm X)"
proof -
  have h1: "(1::nat) \<le> 2" by simp
  have h2: "is_permutation [1, 2, 0]" by (simp add: is_permutation_def)
  have h3: "1 \<le> length [1, 2, 0::nat]" by simp
  have B: "(length [1, 2, 0::nat] + 2 - 1) div 2 = 2" by simp
  from fuzzy_build_popcounts_and_permutation [OF h1 h2 h3] show ?thesis unfolding B .
qed

text \<open>
  Claim C9. In a fuzzy sampling built with density \<open>d \<ge> 1\<close> from an inverse suffix array
  that is a permutation of \<open>[0, n)\<close>, exactly one position of \<open>marked_isa\<close> is set within
  each block \<open>[b * d, min ((b + 1) * d, n))\<close> of text positions, for \<open>b < B\<close>: it is the
  position that the block loop chooses in its round \<open>b\<close>. So the set positions increase
  strictly with \<open>b\<close>, and \<open>select1(marked_isa, b + 1)\<close> is the chosen position of block
  \<open>b\<close>.
\<close>

theorem fuzzy_one_mark_per_block:
  assumes "1 \<le> d" and "is_permutation ISA" and "1 \<le> length ISA"
  shows "\<exists>X. fuzzy_build d ISA = Some X
           \<and> (\<forall>b<(length ISA + d - 1) div d. \<exists>p.
                  fuzzy_pos ISA d b = Some p
                \<and> b * d \<le> p \<and> p < min ((b + 1) * d) (length ISA)
                \<and> fz_marked_isa X ! p
                \<and> (\<forall>q. b * d \<le> q \<and> q < min ((b + 1) * d) (length ISA) \<and> fz_marked_isa X ! q
                       \<longrightarrow> q = p)
                \<and> select1 (fz_marked_isa X) (b + 1) = Some p)
           \<and> (\<forall>b b'. b < b' \<and> b' < (length ISA + d - 1) div d \<longrightarrow>
                 (\<exists>p p'. select1 (fz_marked_isa X) (b + 1) = Some p
                        \<and> select1 (fz_marked_isa X) (b' + 1) = Some p' \<and> p < p'))"
proof -
  from assms(1) have d: "0 < d" by simp
  from fuzzy_build_blocks [OF d assms(2)] show ?thesis .
qed

theorem fuzzy_one_mark_per_block_witness:
  "\<exists>X. fuzzy_build 2 [1, 2, 0] = Some X
      \<and> (\<exists>p. fuzzy_pos [1, 2, 0] 2 1 = Some p \<and> 2 \<le> p \<and> p < 3 \<and> fz_marked_isa X ! p
            \<and> select1 (fz_marked_isa X) 2 = Some p)
      \<and> (\<exists>p p'. select1 (fz_marked_isa X) 1 = Some p \<and> select1 (fz_marked_isa X) 2 = Some p'
            \<and> p < p')"
proof -
  have h1: "(1::nat) \<le> 2" by simp
  have h2: "is_permutation [1, 2, 0]" by (simp add: is_permutation_def)
  have h3: "1 \<le> length [1, 2, 0::nat]" by simp
  have B: "(length [1, 2, 0::nat] + 2 - 1) div 2 = 2" by simp
  from fuzzy_one_mark_per_block [OF h1 h2 h3] obtain X where
    X: "fuzzy_build 2 [1, 2, 0] = Some X"
    and blk: "\<forall>b<2. \<exists>p.
                  fuzzy_pos [1, 2, 0] 2 b = Some p
                \<and> b * 2 \<le> p \<and> p < min ((b + 1) * 2) (length [1, 2, 0::nat])
                \<and> fz_marked_isa X ! p
                \<and> (\<forall>q. b * 2 \<le> q \<and> q < min ((b + 1) * 2) (length [1, 2, 0::nat]) \<and> fz_marked_isa X ! q
                       \<longrightarrow> q = p)
                \<and> select1 (fz_marked_isa X) (b + 1) = Some p"
    and ord: "\<forall>b b'. b < b' \<and> b' < 2 \<longrightarrow>
                 (\<exists>p p'. select1 (fz_marked_isa X) (b + 1) = Some p
                        \<and> select1 (fz_marked_isa X) (b' + 1) = Some p' \<and> p < p')"
    unfolding B by (elim exE conjE) (rule that)
  have one: "(1::nat) < 2" by simp
  from blk [rule_format, OF one] obtain p where
    p1: "fuzzy_pos [1, 2, 0] 2 1 = Some p"
    and p2: "1 * 2 \<le> p"
    and p3: "p < min ((1 + 1) * 2) (length [1, 2, 0::nat])"
    and p4: "fz_marked_isa X ! p"
    and p5: "select1 (fz_marked_isa X) (1 + 1) = Some p"
    by (elim exE conjE) (rule that)
  from p2 have p2': "2 \<le> p" by simp
  from p3 have p3': "p < 3" by simp
  from p5 have p5': "select1 (fz_marked_isa X) 2 = Some p" by (simp add: numeral_2_eq_2)
  from p1 p2' p3' p4 p5' have c1: "\<exists>p. fuzzy_pos [1, 2, 0] 2 1 = Some p \<and> 2 \<le> p \<and> p < 3
       \<and> fz_marked_isa X ! p \<and> select1 (fz_marked_isa X) 2 = Some p"
    by (intro exI [of _ p] conjI)
  have zo: "(0::nat) < 1 \<and> (1::nat) < 2" by simp
  from ord [rule_format, OF zo] obtain q q' where
    q1: "select1 (fz_marked_isa X) (0 + 1) = Some q"
    and q2: "select1 (fz_marked_isa X) (1 + 1) = Some q'" and q3: "q < q'"
    by (elim exE conjE) (rule that)
  from q1 have q1': "select1 (fz_marked_isa X) 1 = Some q" by simp
  from q2 have q2': "select1 (fz_marked_isa X) 2 = Some q'" by (simp add: numeral_2_eq_2)
  from q1' q2' q3 have c2: "\<exists>p p'. select1 (fz_marked_isa X) 1 = Some p
       \<and> select1 (fz_marked_isa X) 2 = Some p' \<and> p < p'"
    by (intro exI [of _ q] exI [of _ q'] conjI)
  from X c1 c2 show ?thesis by (intro exI [of _ X] conjI)
qed

text \<open>
  Claim C5, as amended. During the block loop of the fuzzy sampling, \<open>min_prev_val\<close> does not
  decrease in a round whose block has a position \<open>p\<close> with \<open>ISA[p] \<ge> min_prev_val\<close>, and the
  final value of the counter \<open>runs\<close> is one plus the number of blocks that have no such
  position: the counter starts at 1. The loop is the iteration of its body over the
  \<open>B = \<lceil>n / d\<rceil>\<close> blocks.
\<close>

theorem fuzzy_runs_one_plus_empty_blocks:
  assumes "1 \<le> d" and "is_permutation ISA"
  shows "fuzzy_runs d ISA = Some (1 + fuzzy_empty_blocks ISA d)
       \<and> fuzzy_loop ISA (length ISA) d 0 (fuzzy_init (length ISA) d)
           = fuzzy_iter ISA (length ISA) d ((length ISA + d - 1) div d)
       \<and> (\<forall>b<(length ISA + d - 1) div d. \<not> fuzzy_empty ISA d b \<longrightarrow>
             (\<exists>st st'. fuzzy_iter ISA (length ISA) d b = Some st
                      \<and> fuzzy_iter ISA (length ISA) d (Suc b) = Some st'
                      \<and> fs_min_prev_val st \<le> fs_min_prev_val st'))"
proof -
  from assms(1) have d: "0 < d" by simp
  from fuzzy_loop_facts [OF d assms(2)] have "fuzzy_runs d ISA = Some (1 + fuzzy_empty_blocks ISA d)"
    by (auto simp: fuzzy_runs_def)
  moreover note fuzzy_loop_eq_iter [OF d, of ISA "length ISA"]
  moreover have "\<forall>b<(length ISA + d - 1) div d. \<not> fuzzy_empty ISA d b \<longrightarrow>
             (\<exists>st st'. fuzzy_iter ISA (length ISA) d b = Some st
                      \<and> fuzzy_iter ISA (length ISA) d (Suc b) = Some st'
                      \<and> fs_min_prev_val st \<le> fs_min_prev_val st')"
    using fuzzy_monotone [OF d assms(2)] by blast
  ultimately show ?thesis by blast
qed

theorem fuzzy_runs_one_plus_empty_blocks_witness:
  "fuzzy_runs 1 [1, 2, 0] = Some (1 + fuzzy_empty_blocks [1, 2, 0] 1)
   \<and> (\<exists>st st'. fuzzy_iter [1, 2, 0] (length [1, 2, 0::nat]) 1 1 = Some st
         \<and> fuzzy_iter [1, 2, 0] (length [1, 2, 0::nat]) 1 (Suc 1) = Some st'
         \<and> fs_min_prev_val st \<le> fs_min_prev_val st')"
proof -
  have h1: "(1::nat) \<le> 1" by simp
  have h2: "is_permutation [1, 2, 0]" by (simp add: is_permutation_def)
  note t = fuzzy_runs_one_plus_empty_blocks [OF h1 h2]
  from t have r: "fuzzy_runs 1 [1, 2, 0] = Some (1 + fuzzy_empty_blocks [1, 2, 0] 1)"
    by (rule conjunct1)
  from t have m: "\<forall>b<(length [1, 2, 0::nat] + 1 - 1) div 1. \<not> fuzzy_empty [1, 2, 0] 1 b \<longrightarrow>
             (\<exists>st st'. fuzzy_iter [1, 2, 0] (length [1, 2, 0::nat]) 1 b = Some st
                      \<and> fuzzy_iter [1, 2, 0] (length [1, 2, 0::nat]) 1 (Suc b) = Some st'
                      \<and> fs_min_prev_val st \<le> fs_min_prev_val st')"
    by (elim conjE)
  have lt: "(1::nat) < (length [1, 2, 0::nat] + 1 - 1) div 1" by simp
  have ne: "\<not> fuzzy_empty [1, 2, 0] 1 1" by code_simp
  from r m [rule_format, OF lt ne] show ?thesis by (rule conjI)
qed

text \<open>
  Claim C5 as first stated (the final value of \<open>runs\<close> is the number of blocks without a
  position \<open>p\<close> with \<open>ISA[p] \<ge> min_prev_val\<close>) fails: on the inverse suffix array of the
  source's example text, with density 4, only the last block has no such position, and
  \<open>runs\<close> ends at 2.
\<close>

theorem fuzzy_runs_not_empty_blocks:
  "fuzzy_runs 4 [2, 4, 6, 8, 10, 12, 1, 3, 5, 7, 9, 11, 0] = Some 2
   \<and> fuzzy_empty_blocks [2, 4, 6, 8, 10, 12, 1, 3, 5, 7, 9, 11, 0] 4 = 1
   \<and> fuzzy_runs 4 [2, 4, 6, 8, 10, 12, 1, 3, 5, 7, 9, 11, 0]
       \<noteq> Some (fuzzy_empty_blocks [2, 4, 6, 8, 10, 12, 1, 3, 5, 7, 9, 11, 0] 4)"
  by code_simp

section \<open>Fuzzy sampling: the access operator and the ISA support\<close>

lemma fuzzy_answer:
  assumes d: "0 < d" and perm: "is_permutation SA" and inv: "inverse_of SA ISA"
    and ib: "in_blocks (length ISA) d ps" and k: "k < length ps"
  shows "select1 (fz_marked_isa (fuzzy_of_positions ISA ps)) (k + 1) = Some (ps ! k)"
    and "fuzzy_isa_result (fuzzy_of_positions ISA ps) k j = Some (ISA ! (ps ! k), j)"
    and "fuzzy_get (fuzzy_of_positions ISA ps) (ISA ! (ps ! k)) = Some (ps ! k)"
    and "ISA ! (ps ! k) < length SA" and "SA ! (ISA ! (ps ! k)) = ps ! k"
    and "k * d \<le> ps ! k" and "ps ! k < k * d + d" and "ps ! k < length SA"
proof -
  have permI: "is_permutation ISA" using perm inv by (rule inverse_perm)
  have len: "length ISA = length SA" using inv by (rule inverse_length)
  from ib k have r: "k * d \<le> ps ! k \<and> ps ! k < min (k * d + d) (length ISA)"
    unfolding in_blocks_def by blast
  then show "k * d \<le> ps ! k" and "ps ! k < k * d + d" and pn: "ps ! k < length SA"
    by (simp_all add: len)
  show "select1 (fz_marked_isa (fuzzy_of_positions ISA ps)) (k + 1) = Some (ps ! k)"
    by (rule fuzzy_select_isa [OF d ib k])
  show "fuzzy_isa_result (fuzzy_of_positions ISA ps) k j = Some (ISA ! (ps ! k), j)"
    by (rule fuzzy_isa_result_eq [OF d permI ib k])
  show "fuzzy_get (fuzzy_of_positions ISA ps) (ISA ! (ps ! k)) = Some (ps ! k)"
    by (rule fuzzy_get_eq [OF d permI ib k])
  show "ISA ! (ps ! k) < length SA" by (rule inverse_nth_rev(2) [OF perm inv pn])
  show "SA ! (ISA ! (ps ! k)) = ps ! k" by (rule inverse_nth_rev(1) [OF perm inv pn])
qed

lemma fuzzy_get_sampled:
  assumes d: "1 \<le> d" and perm: "is_permutation SA" and inv: "inverse_of SA ISA"
    and i: "i < length SA"
    and X: "fuzzy_build d ISA = Some X" and s: "fuzzy_is_sampled X i = Some True"
  shows "fuzzy_get X i = Some (SA ! i)"
proof -
  from d have d0: "0 < d" by simp
  have permI: "is_permutation ISA" using perm inv by (rule inverse_perm)
  have len: "length ISA = length SA" using inv by (rule inverse_length)
  from fuzzy_build_eq [OF d0 permI] X obtain ps where
    ib: "in_blocks (length ISA) d ps" and Xe: "X = fuzzy_of_positions ISA ps" by auto
  from i len have il: "i < length ISA" by simp
  from s have "fz_marked_sa X ! i" by (simp add: fuzzy_is_sampled_def bv_get_def split: if_splits)
  then obtain k where k: "k < length ps" "ISA ! (ps ! k) = i"
    unfolding Xe fuzzy_marked_sa_iff [OF il] by blast
  note a = fuzzy_answer [OF d0 perm inv ib k(1)]
  from a(3) a(5) k(2) show ?thesis by (simp add: Xe)
qed

lemma fuzzy_isa_sample_leq_facts:
  assumes d: "0 < d" and perm: "is_permutation SA" and inv: "inverse_of SA ISA"
    and i: "i < length SA" and X: "fuzzy_build d ISA = Some X"
  shows "\<exists>v p. fuzzy_isa_sample_leq d X i = Some (v, p) \<and> v < length SA \<and> SA ! v = p
           \<and> (p \<le> i \<or> (i div d = 0
                 \<and> select1 (fz_marked_isa X) ((length SA + d - 1) div d) = Some p))"
proof -
  have permI: "is_permutation ISA" using perm inv by (rule inverse_perm)
  have len: "length ISA = length SA" using inv by (rule inverse_length)
  from fuzzy_build_eq [OF d permI] X obtain ps where
    ib: "in_blocks (length ISA) d ps" and Xe: "X = fuzzy_of_positions ISA ps" by auto
  define B where "B = length ps"
  have B: "B = (length SA + d - 1) div d" using ib by (simp add: in_blocks_def B_def len)
  have size: "fuzzy_size X = B" by (simp add: fuzzy_size_def Xe fuzzy_of_positions_def B_def)
  define ci where "ci = i div d"
  have ciB: "ci < B" unfolding ci_def B by (rule block_index_less [OF d i])
  have cid: "ci * d \<le> i" by (simp add: ci_def)
  note a = fuzzy_answer [OF d perm inv ib, folded Xe B_def]
  define ci' where "ci' = (if ps ! ci > i then (if ci > 0 then ci - 1 else B - 1) else ci)"
  have ci'B: "ci' < B" using ciB unfolding ci'_def by (auto split: if_splits)
  have eq: "fuzzy_isa_sample_leq d X i = Some (ISA ! (ps ! ci'), ps ! ci')"
  proof (cases "ps ! ci > i")
    case False
    then have e: "ci' = ci" by (simp add: ci'_def)
    show ?thesis
      unfolding fuzzy_isa_sample_leq_def Let_def ci_def [symmetric] size e
      using False a(1) [OF ciB] a(2) [OF ciB] by simp
  next
    case True
    have s1: "select1 (fz_marked_isa X) (ci' + 1) = Some (ps ! ci')" by (rule a(1) [OF ci'B])
    have r1: "fuzzy_isa_result X ci' (ps ! ci') = Some (ISA ! (ps ! ci'), ps ! ci')"
      by (rule a(2) [OF ci'B])
    from True have e: "(if ci > 0 then ci - 1 else B - 1) = ci'" by (simp add: ci'_def)
    show ?thesis
      unfolding fuzzy_isa_sample_leq_def Let_def ci_def [symmetric] size e
      using True a(1) [OF ciB] s1 r1 by simp
  qed
  have w: "ps ! ci' \<le> i \<or> (i div d = 0 \<and> select1 (fz_marked_isa X) B = Some (ps ! ci'))"
  proof (cases "ps ! ci > i")
    case False
    then show ?thesis by (simp add: ci'_def)
  next
    case True
    show ?thesis
    proof (cases "ci > 0")
      case c: True
      with True have e: "ci' = ci - 1" by (simp add: ci'_def)
      from a(7) [OF ci'B] have "ps ! ci' < ci' * d + d" .
      also have "ci' * d + d = ci * d" using c by (simp add: e mult_eq_if)
      finally show ?thesis using cid by simp
    next
      case c: False
      with True have e: "ci' = B - 1" by (simp add: ci'_def)
      from ciB have "B - 1 + 1 = B" by simp
      with a(1) [OF ci'B] have "select1 (fz_marked_isa X) B = Some (ps ! ci')" by (simp add: e)
      with c show ?thesis by (simp add: ci_def)
    qed
  qed
  show ?thesis
    using w unfolding B
    by (intro exI [of _ "ISA ! (ps ! ci')"] exI [of _ "ps ! ci'"] conjI eq a(4) [OF ci'B] a(5) [OF ci'B])
qed

lemma fuzzy_isa_sample_qeq_facts:
  assumes d: "0 < d" and perm: "is_permutation SA" and inv: "inverse_of SA ISA"
    and i: "i < length SA" and X: "fuzzy_build d ISA = Some X"
  shows "\<exists>v p. fuzzy_isa_sample_qeq d X i = Some (v, p) \<and> v < length SA \<and> SA ! v = p
           \<and> (i \<le> p \<or> (i div d + 1 = (length SA + d - 1) div d
                 \<and> select1 (fz_marked_isa X) 1 = Some p))"
proof -
  have permI: "is_permutation ISA" using perm inv by (rule inverse_perm)
  have len: "length ISA = length SA" using inv by (rule inverse_length)
  from fuzzy_build_eq [OF d permI] X obtain ps where
    ib: "in_blocks (length ISA) d ps" and Xe: "X = fuzzy_of_positions ISA ps" by auto
  define B where "B = length ps"
  have B: "B = (length SA + d - 1) div d" using ib by (simp add: in_blocks_def B_def len)
  have size: "fuzzy_size X = B" by (simp add: fuzzy_size_def Xe fuzzy_of_positions_def B_def)
  define ci where "ci = i div d"
  have ciB: "ci < B" unfolding ci_def B by (rule block_index_less [OF d i])
  have idl: "i < ci * d + d" using d by (simp add: ci_def dividend_less_div_times add.commute)
  note a = fuzzy_answer [OF d perm inv ib, folded Xe B_def]
  define ci' where "ci' = (if ps ! ci < i then (if ci < B - 1 then ci + 1 else 0) else ci)"
  have ci'B: "ci' < B" using ciB unfolding ci'_def by (auto split: if_splits)
  have eq: "fuzzy_isa_sample_qeq d X i = Some (ISA ! (ps ! ci'), ps ! ci')"
  proof (cases "ps ! ci < i")
    case False
    then have e: "ci' = ci" by (simp add: ci'_def)
    show ?thesis
      unfolding fuzzy_isa_sample_qeq_def Let_def ci_def [symmetric] size e
      using False a(1) [OF ciB] a(2) [OF ciB] by simp
  next
    case True
    have s1: "select1 (fz_marked_isa X) (ci' + 1) = Some (ps ! ci')" by (rule a(1) [OF ci'B])
    have r1: "fuzzy_isa_result X ci' (ps ! ci') = Some (ISA ! (ps ! ci'), ps ! ci')"
      by (rule a(2) [OF ci'B])
    from True have e: "(if ci < B - 1 then ci + 1 else 0) = ci'" by (simp add: ci'_def)
    show ?thesis
      unfolding fuzzy_isa_sample_qeq_def Let_def ci_def [symmetric] size e
      using True a(1) [OF ciB] s1 r1 by simp
  qed
  have w: "i \<le> ps ! ci' \<or> (i div d + 1 = B \<and> select1 (fz_marked_isa X) 1 = Some (ps ! ci'))"
  proof (cases "ps ! ci < i")
    case False
    then show ?thesis by (simp add: ci'_def)
  next
    case True
    show ?thesis
    proof (cases "ci < B - 1")
      case c: True
      with True have e: "ci' = ci + 1" by (simp add: ci'_def)
      have "i < ci * d + d" by (rule idl)
      also have "\<dots> = ci' * d" by (simp add: e)
      also have "\<dots> \<le> ps ! ci'" by (rule a(6) [OF ci'B])
      finally show ?thesis by simp
    next
      case c: False
      with True have e: "ci' = 0" by (simp add: ci'_def)
      from c ciB have "ci + 1 = B" by simp
      moreover from a(1) [OF ci'B] have "select1 (fz_marked_isa X) 1 = Some (ps ! ci')"
        by (simp add: e)
      ultimately show ?thesis by (simp add: ci_def)
    qed
  qed
  show ?thesis
    using w unfolding B
    by (intro exI [of _ "ISA ! (ps ! ci')"] exI [of _ "ps ! ci'"] conjI eq a(4) [OF ci'B] a(5) [OF ci'B])
qed

section \<open>The ISA supports and their SA samplings\<close>

lemma isa_sampling_nil: "isa_sampling d [] = Some (iv_make 64 0)"
  by (simp add: isa_sampling_def iv_size_make)

lemma isa_sampling_defined:
  assumes d: "0 < d" and perm: "is_permutation SA"
  shows "\<exists>D. isa_sampling d SA = Some D"
proof (cases "length SA = 0")
  case True
  then show ?thesis by (simp add: isa_sampling_nil)
next
  case False
  then have "0 < length SA" by simp
  from isa_sampling_facts [OF d perm this] show ?thesis by blast
qed

lemma matched_pairs:
  assumes d: "0 < d" and perm: "is_permutation SA"
  shows "\<exists>D X. isa_sampling d SA = Some D \<and> text_order_build d SA = Some X
           \<and> (\<forall>k. k * d < length SA \<longrightarrow>
                 (\<exists>v. isa_get d D (k * d) = Some v \<and> v < length SA \<and> SA ! v = k * d))
           \<and> (\<forall>k. k * d < length SA \<longrightarrow>
                 (\<exists>v. text_order_isa_get d X (k * d) = Some v \<and> v < length SA \<and> SA ! v = k * d))"
proof -
  from isa_sampling_defined [OF d perm] obtain D where D: "isa_sampling d SA = Some D" by blast
  from text_order_build_eq [OF d perm] obtain X where X: "text_order_build d SA = Some X" by blast
  have p1: "\<forall>k. k * d < length SA \<longrightarrow>
                 (\<exists>v. isa_get d D (k * d) = Some v \<and> v < length SA \<and> SA ! v = k * d)"
  proof (intro allI impI)
    fix k assume k: "k * d < length SA"
    from isa_queries(1) [OF d perm k D] d
    show "\<exists>v. isa_get d D (k * d) = Some v \<and> v < length SA \<and> SA ! v = k * d" by simp
  qed
  have p2: "\<forall>k. k * d < length SA \<longrightarrow>
                 (\<exists>v. text_order_isa_get d X (k * d) = Some v \<and> v < length SA \<and> SA ! v = k * d)"
  proof (intro allI impI)
    fix k assume k: "k * d < length SA"
    from text_order_isa_queries(1) [OF d perm k X] d
    show "\<exists>v. text_order_isa_get d X (k * d) = Some v \<and> v < length SA \<and> SA ! v = k * d" by simp
  qed
  from D X p1 p2 show ?thesis by blast
qed

lemma neighbour_samples:
  assumes d: "0 < d" and perm: "is_permutation SA" and inv: "inverse_of SA ISA"
    and i: "i < length SA"
  shows "\<exists>D X Y. isa_sampling d SA = Some D \<and> text_order_build d SA = Some X
           \<and> fuzzy_build d ISA = Some Y
           \<and> (\<exists>v p. isa_sample_leq d D i = Some (v, p) \<and> v < length SA \<and> SA ! v = p
                  \<and> p \<le> i \<and> p mod d = 0)
           \<and> (\<exists>v p. text_order_isa_sample_leq d X i = Some (v, p) \<and> v < length SA \<and> SA ! v = p
                  \<and> p \<le> i \<and> p mod d = 0)
           \<and> (\<exists>v p. fuzzy_isa_sample_leq d Y i = Some (v, p) \<and> v < length SA \<and> SA ! v = p
                  \<and> (p \<le> i \<or> (i div d = 0
                        \<and> select1 (fz_marked_isa Y) ((length SA + d - 1) div d) = Some p)))
           \<and> (\<exists>v p. isa_sample_qeq d D i = Some (v, p) \<and> v < length SA \<and> SA ! v = p
                  \<and> p mod d = 0
                  \<and> (i \<le> p \<or> (p = 0 \<and> i div d + 1 = (length SA + d - 1) div d)))
           \<and> (\<exists>v p. text_order_isa_sample_qeq d X i = Some (v, p) \<and> v < length SA \<and> SA ! v = p
                  \<and> p mod d = 0
                  \<and> (i \<le> p \<or> (p = 0 \<and> i div d + 1 = (length SA + d - 1) div d)))
           \<and> (\<exists>v p. fuzzy_isa_sample_qeq d Y i = Some (v, p) \<and> v < length SA \<and> SA ! v = p
                  \<and> (i \<le> p \<or> (i div d + 1 = (length SA + d - 1) div d
                        \<and> select1 (fz_marked_isa Y) 1 = Some p)))"
proof -
  have permI: "is_permutation ISA" using perm inv by (rule inverse_perm)
  from isa_sampling_defined [OF d perm] obtain D where D: "isa_sampling d SA = Some D" by blast
  from text_order_build_eq [OF d perm] obtain X where X: "text_order_build d SA = Some X" by blast
  from fuzzy_build_eq [OF d permI] obtain Y where Y: "fuzzy_build d ISA = Some Y" by blast
  have le: "i div d * d \<le> i" and md: "i div d * d mod d = 0" by simp_all
  from isa_queries(2) [OF d perm i D] obtain v1 where
    v1: "isa_sample_leq d D i = Some (v1, i div d * d)" "v1 < length SA" "SA ! v1 = i div d * d"
    by blast
  have q1: "\<exists>v p. isa_sample_leq d D i = Some (v, p) \<and> v < length SA \<and> SA ! v = p
                  \<and> p \<le> i \<and> p mod d = 0"
    by (intro exI [of _ v1] exI [of _ "i div d * d"] conjI v1 le md)
  from text_order_isa_queries(2) [OF d perm i X] obtain v2 where
    v2: "text_order_isa_sample_leq d X i = Some (v2, i div d * d)" "v2 < length SA"
        "SA ! v2 = i div d * d" by blast
  have q2: "\<exists>v p. text_order_isa_sample_leq d X i = Some (v, p) \<and> v < length SA \<and> SA ! v = p
                  \<and> p \<le> i \<and> p mod d = 0"
    by (intro exI [of _ v2] exI [of _ "i div d * d"] conjI v2 le md)
  note q3 = fuzzy_isa_sample_leq_facts [OF d perm inv i Y]
  note q4 = isa_queries(3) [OF d perm i D]
  note q5 = text_order_isa_queries(3) [OF d perm i X]
  note q6 = fuzzy_isa_sample_qeq_facts [OF d perm inv i Y]
  show ?thesis
    by (intro exI [of _ D] exI [of _ X] exI [of _ Y] conjI D X Y q1 q2 q3 q4 q5 q6)
qed

text \<open>
  Claim C6. For the three ISA supports, built with \<open>d_sa = d_isa = d \<ge> 1\<close> from a suffix
  array \<open>SA\<close> that is a permutation of \<open>[0, n)\<close> (the fuzzy sampling reads its inverse
  \<open>ISA\<close>), and every \<open>i < n\<close>: \<open>sample_leq(i)\<close> returns a pair \<open>(v, p)\<close> with \<open>SA[v] = p\<close>,
  where \<open>p \<le> i\<close> is a multiple of \<open>d\<close> for the plain and the text-order support, and for
  the fuzzy support \<open>p \<le> i\<close> or \<open>p\<close> is the wrap-around value (\<open>i\<close> lies in the first block
  and \<open>p\<close> is the marked position of the last block). \<open>sample_qeq(i)\<close> returns \<open>(v, p)\<close> with
  \<open>SA[v] = p\<close>, where \<open>p \<ge> i\<close> or \<open>p\<close> is the wrap-around value: \<open>i\<close> lies in the last
  block and \<open>p\<close> is 0 (plain and text-order support) or the marked position of the first
  block (fuzzy support).
\<close>

theorem isa_support_neighbour_samples:
  assumes "1 \<le> d" and "is_permutation SA" and "inverse_of SA ISA" and "i < length SA"
  shows "\<exists>D X Y. isa_sampling d SA = Some D \<and> text_order_build d SA = Some X
           \<and> fuzzy_build d ISA = Some Y
           \<and> (\<exists>v p. isa_sample_leq d D i = Some (v, p) \<and> v < length SA \<and> SA ! v = p
                  \<and> p \<le> i \<and> p mod d = 0)
           \<and> (\<exists>v p. text_order_isa_sample_leq d X i = Some (v, p) \<and> v < length SA \<and> SA ! v = p
                  \<and> p \<le> i \<and> p mod d = 0)
           \<and> (\<exists>v p. fuzzy_isa_sample_leq d Y i = Some (v, p) \<and> v < length SA \<and> SA ! v = p
                  \<and> (p \<le> i \<or> (i div d = 0
                        \<and> select1 (fz_marked_isa Y) ((length SA + d - 1) div d) = Some p)))
           \<and> (\<exists>v p. isa_sample_qeq d D i = Some (v, p) \<and> v < length SA \<and> SA ! v = p
                  \<and> p mod d = 0
                  \<and> (i \<le> p \<or> (p = 0 \<and> i div d + 1 = (length SA + d - 1) div d)))
           \<and> (\<exists>v p. text_order_isa_sample_qeq d X i = Some (v, p) \<and> v < length SA \<and> SA ! v = p
                  \<and> p mod d = 0
                  \<and> (i \<le> p \<or> (p = 0 \<and> i div d + 1 = (length SA + d - 1) div d)))
           \<and> (\<exists>v p. fuzzy_isa_sample_qeq d Y i = Some (v, p) \<and> v < length SA \<and> SA ! v = p
                  \<and> (i \<le> p \<or> (i div d + 1 = (length SA + d - 1) div d
                        \<and> select1 (fz_marked_isa Y) 1 = Some p)))"
proof -
  from assms(1) have d: "0 < d" by simp
  from neighbour_samples [OF d assms(2,3,4)] show ?thesis .
qed

theorem isa_support_neighbour_samples_witness:
  "\<exists>D X Y. isa_sampling 2 [2, 0, 1::nat] = Some D \<and> text_order_build 2 [2, 0, 1::nat] = Some X
           \<and> fuzzy_build 2 [1, 2, 0] = Some Y
           \<and> (\<exists>v p. isa_sample_leq 2 D 1 = Some (v, p) \<and> v < length [2, 0, 1::nat] \<and> [2, 0, 1::nat] ! v = p
                  \<and> p \<le> 1 \<and> p mod 2 = 0)
           \<and> (\<exists>v p. text_order_isa_sample_leq 2 X 1 = Some (v, p) \<and> v < length [2, 0, 1::nat] \<and> [2, 0, 1::nat] ! v = p
                  \<and> p \<le> 1 \<and> p mod 2 = 0)
           \<and> (\<exists>v p. fuzzy_isa_sample_leq 2 Y 1 = Some (v, p) \<and> v < length [2, 0, 1::nat] \<and> [2, 0, 1::nat] ! v = p
                  \<and> (p \<le> 1 \<or> ((1::nat) div 2 = 0
                        \<and> select1 (fz_marked_isa Y) ((length [2, 0, 1::nat] + 2 - 1) div 2) = Some p)))
           \<and> (\<exists>v p. isa_sample_qeq 2 D 1 = Some (v, p) \<and> v < length [2, 0, 1::nat] \<and> [2, 0, 1::nat] ! v = p
                  \<and> p mod 2 = 0
                  \<and> (1 \<le> p \<or> (p = 0 \<and> (1::nat) div 2 + 1 = (length [2, 0, 1::nat] + 2 - 1) div 2)))
           \<and> (\<exists>v p. text_order_isa_sample_qeq 2 X 1 = Some (v, p) \<and> v < length [2, 0, 1::nat] \<and> [2, 0, 1::nat] ! v = p
                  \<and> p mod 2 = 0
                  \<and> (1 \<le> p \<or> (p = 0 \<and> (1::nat) div 2 + 1 = (length [2, 0, 1::nat] + 2 - 1) div 2)))
           \<and> (\<exists>v p. fuzzy_isa_sample_qeq 2 Y 1 = Some (v, p) \<and> v < length [2, 0, 1::nat] \<and> [2, 0, 1::nat] ! v = p
                  \<and> (1 \<le> p \<or> ((1::nat) div 2 + 1 = (length [2, 0, 1::nat] + 2 - 1) div 2
                        \<and> select1 (fz_marked_isa Y) 1 = Some p)))"
proof -
  have h1: "(1::nat) \<le> 2" by simp
  have h2: "is_permutation [2, 0, 1]" by (simp add: is_permutation_def)
  have h3: "inverse_of [2, 0, 1] [1, 2, 0]" by code_simp
  have h4: "1 < length [2, 0, 1::nat]" by simp
  from isa_support_neighbour_samples [OF h1 h2 h3 h4] show ?thesis .
qed

text \<open>
  Claim C2 (for every matched pair and every \<open>k\<close> with \<open>k * d < n\<close> the ISA support \<open>D\<close>
  satisfies \<open>SA[D[k * d]] = k * d\<close>) fails for the fuzzy pair, which keeps one sample in
  each block of text positions and not the samples at the multiples of \<open>d\<close>. On the
  suffix array of the source's comment, with density 4 and \<open>k = 1\<close>: the sample of block 1
  is text position 7, the suffix array index \<open>ISA[4]\<close> of text position 4 is not sampled,
  the support's own neighbour queries at 4 answer with the text positions 0 and 7, and
  \<open>D[4]\<close> lies outside of the four entries that the support can read.
\<close>

theorem fuzzy_pair_has_no_sample_at_multiple:
  "map_option (\<lambda>Y. (select1 (fz_marked_isa Y) (1 + 1),
                     fuzzy_is_sampled Y ([2, 4, 6, 8, 10, 12, 1, 3, 5, 7, 9, 11, 0] ! (1 * 4)),
                     fuzzy_isa_sample_leq 4 Y (1 * 4),
                     fuzzy_isa_sample_qeq 4 Y (1 * 4),
                     fuzzy_isa_get Y (1 * 4)))
     (fuzzy_build 4 [2, 4, 6, 8, 10, 12, 1, 3, 5, 7, 9, 11, 0])
   = Some (Some 7, Some False, Some (2, 0), Some (3, 7), None)
   \<and> is_permutation [12, 6, 0, 7, 1, 8, 2, 9, 3, 10, 4, 11, 5]
   \<and> inverse_of [12, 6, 0, 7, 1, 8, 2, 9, 3, 10, 4, 11, 5] [2, 4, 6, 8, 10, 12, 1, 3, 5, 7, 9, 11, 0]
   \<and> 1 * 4 < length [12, 6, 0, 7, 1, 8, 2, 9, 3, 10, 4, 11, 5]"
  by code_simp

text \<open>
  Claim C2, as amended. For the pairs of the suffix-order sampling with the plain ISA
  sampling and of the text-order sampling with its ISA support, built with
  \<open>d_sa = d_isa = d \<ge> 1\<close> from a suffix array that is a permutation of \<open>[0, n)\<close>, and every
  \<open>k\<close> with \<open>k * d < n\<close>: \<open>SA[D[k * d]] = k * d\<close>. The pair of the fuzzy sampling with
  its ISA support is left out: its samples are one text position in each block.
\<close>

theorem matched_pair_identity:
  assumes "1 \<le> d" and "is_permutation SA"
  shows "\<exists>D X. isa_sampling d SA = Some D \<and> text_order_build d SA = Some X
           \<and> (\<forall>k. k * d < length SA \<longrightarrow>
                 (\<exists>v. isa_get d D (k * d) = Some v \<and> v < length SA \<and> SA ! v = k * d))
           \<and> (\<forall>k. k * d < length SA \<longrightarrow>
                 (\<exists>v. text_order_isa_get d X (k * d) = Some v \<and> v < length SA \<and> SA ! v = k * d))"
proof -
  from assms(1) have d: "0 < d" by simp
  from matched_pairs [OF d assms(2)] show ?thesis .
qed

theorem matched_pair_identity_witness:
  "\<exists>D X. isa_sampling 2 [2, 0, 1] = Some D \<and> text_order_build 2 [2, 0, 1] = Some X
           \<and> (\<exists>v. isa_get 2 D (1 * 2) = Some v \<and> v < length [2, 0, 1::nat]
                  \<and> [2, 0, 1::nat] ! v = 1 * 2)
           \<and> (\<exists>v. text_order_isa_get 2 X (1 * 2) = Some v \<and> v < length [2, 0, 1::nat]
                  \<and> [2, 0, 1::nat] ! v = 1 * 2)"
proof -
  have h1: "(1::nat) \<le> 2" by simp
  have h2: "is_permutation [2, 0, 1]" by (simp add: is_permutation_def)
  from matched_pair_identity [OF h1 h2] obtain D X where
    D: "isa_sampling 2 [2, 0, 1] = Some D" and X: "text_order_build 2 [2, 0, 1] = Some X"
    and p1: "\<forall>k. k * 2 < length [2, 0, 1::nat] \<longrightarrow>
                 (\<exists>v. isa_get 2 D (k * 2) = Some v \<and> v < length [2, 0, 1::nat]
                     \<and> [2, 0, 1::nat] ! v = k * 2)"
    and p2: "\<forall>k. k * 2 < length [2, 0, 1::nat] \<longrightarrow>
                 (\<exists>v. text_order_isa_get 2 X (k * 2) = Some v \<and> v < length [2, 0, 1::nat]
                     \<and> [2, 0, 1::nat] ! v = k * 2)"
    by (elim exE conjE) (rule that)
  have k: "1 * 2 < length [2, 0, 1::nat]" by simp
  show ?thesis
    by (intro exI [of _ D] exI [of _ X] conjI D X p1 [rule_format, OF k] p2 [rule_format, OF k])
qed

text \<open>
  A remark on the access operator of the fuzzy ISA support. It returns the entry of
  \<open>inv_perm\<close> as it is stored, while its comment announces the inverse suffix array value
  and the neighbour queries of the same class map the entry through \<open>select\<close> on
  \<open>marked_sa\<close>. On the example above, block 0 has the entry 1, which \<open>select\<close> maps to
  the suffix array index 2, and \<open>SA[2] = 0\<close> is the sample of block 0.
\<close>

lemma fuzzy_isa_get_entry_of_first_block:
  "map_option (\<lambda>Y. (fuzzy_isa_get Y 0, fuzzy_isa_result Y 0 0)) (fuzzy_build 4 [2, 4, 6, 8, 10, 12, 1, 3, 5, 7, 9, 11, 0])
   = Some (Some 1, Some (2, 0))
   \<and> [12, 6, 0, 7, 1, 8, 2, 9, 3, 10, 4, 11, 5] ! 2 = (0::nat)"
  by code_simp

section \<open>Serialization: load reads what serialize wrote\<close>

lemma read_block_append: "read_block (length xs # xs @ rest) = Some (xs, rest)"
  by (simp add: read_block_def)

lemma example_primitives_round_trip: "primitives_round_trip example_primitives"
proof -
  have bits: "map ((\<lambda>x. x = Suc 0) \<circ> (\<lambda>b. if b then 1 else 0)) bv = bv" for bv
    by (induction bv) simp_all
  have l: "read_block (length bv # map (\<lambda>b. if b then 1 else 0) bv @ rest)
             = Some (map (\<lambda>b. if b then 1 else 0) bv, rest)" for bv :: "bool list" and rest
    using read_block_append [of "map (\<lambda>b. if b then 1 else 0) bv" rest] by simp
  show ?thesis
    unfolding primitives_round_trip_def example_primitives_def
    by (simp add: read_block_append l bits)
qed

lemma serialize_load:
  assumes "primitives_round_trip P"
  shows "sa_order_load P (sa_order_serialize P S @ rest) = Some (S, rest)"
    and "text_order_load P (text_order_serialize P X @ rest) = Some (X, rest)"
    and "bwt_load P (bwt_serialize P Y @ rest) = Some (Y, rest)"
    and "fuzzy_load P (fuzzy_serialize P Z @ rest) = Some (Z, rest)"
proof -
  from assms have
    iv: "\<And>v rest. iv_load P (iv_serialize P v @ rest) = Some (v, rest)"
    and bv: "\<And>v rest. bv_load P (bv_serialize P v @ rest) = Some (v, rest)"
    and rk: "\<And>v rest. rank_load P (rank_serialize P v @ rest) = Some rest"
    and sl: "\<And>v rest. select_load P (select_serialize P v @ rest) = Some rest"
    and wt: "\<And>v rest. wt_load P (wt_serialize P v @ rest) = Some (v, rest)"
    by (simp_all add: primitives_round_trip_def)
  show "sa_order_load P (sa_order_serialize P S @ rest) = Some (S, rest)"
    by (simp add: sa_order_load_def sa_order_serialize_def iv)
  show "text_order_load P (text_order_serialize P X @ rest) = Some (X, rest)"
    by (simp add: text_order_load_def text_order_serialize_def iv bv rk)
  show "bwt_load P (bwt_serialize P Y @ rest) = Some (Y, rest)"
    by (simp add: bwt_load_def bwt_serialize_def iv bv rk)
  show "fuzzy_load P (fuzzy_serialize P Z @ rest) = Some (Z, rest)"
    by (simp add: fuzzy_load_def fuzzy_serialize_def bv rk sl wt)
qed

lemma serialize_load_all:
  assumes "primitives_round_trip P"
  shows "sa_order_load P (sa_order_serialize P S) = Some (S, [])
       \<and> (\<exists>X'. text_order_load P (text_order_serialize P X) = Some (X', [])
              \<and> text_order_equal X X' \<and> X' = X
              \<and> (\<forall>i. text_order_is_sampled X' i = text_order_is_sampled X i)
              \<and> (\<forall>i. text_order_get d X' i = text_order_get d X i))
       \<and> (\<exists>Y'. bwt_load P (bwt_serialize P Y) = Some (Y', [])
              \<and> bwt_equal Y Y' \<and> Y' = Y
              \<and> (\<forall>i. bwt_is_sampled Y' i = bwt_is_sampled Y i)
              \<and> (\<forall>i. bwt_get d Y' i = bwt_get d Y i))
       \<and> (\<exists>Z'. fuzzy_load P (fuzzy_serialize P Z) = Some (Z', [])
              \<and> fuzzy_equal Z Z' \<and> Z' = Z
              \<and> (\<forall>i. fuzzy_is_sampled Z' i = fuzzy_is_sampled Z i)
              \<and> (\<forall>i. fuzzy_get Z' i = fuzzy_get Z i))"
proof -
  note r = serialize_load [OF assms, of _ "[]", simplified]
  have c1: "sa_order_load P (sa_order_serialize P S) = Some (S, [])" by (rule r(1))
  have c2: "\<exists>X'. text_order_load P (text_order_serialize P X) = Some (X', [])
              \<and> text_order_equal X X' \<and> X' = X
              \<and> (\<forall>i. text_order_is_sampled X' i = text_order_is_sampled X i)
              \<and> (\<forall>i. text_order_get d X' i = text_order_get d X i)"
    by (intro exI [of _ X] conjI r(2)) (simp_all add: text_order_equal_def)
  have c3: "\<exists>Y'. bwt_load P (bwt_serialize P Y) = Some (Y', [])
              \<and> bwt_equal Y Y' \<and> Y' = Y
              \<and> (\<forall>i. bwt_is_sampled Y' i = bwt_is_sampled Y i)
              \<and> (\<forall>i. bwt_get d Y' i = bwt_get d Y i)"
    by (intro exI [of _ Y] conjI r(3)) (simp_all add: bwt_equal_def)
  have c4: "\<exists>Z'. fuzzy_load P (fuzzy_serialize P Z) = Some (Z', [])
              \<and> fuzzy_equal Z Z' \<and> Z' = Z
              \<and> (\<forall>i. fuzzy_is_sampled Z' i = fuzzy_is_sampled Z i)
              \<and> (\<forall>i. fuzzy_get Z' i = fuzzy_get Z i)"
    by (intro exI [of _ Z] conjI r(4)) (simp_all add: fuzzy_equal_def)
  from c1 c2 c3 c4 show ?thesis by (intro conjI)
qed

text \<open>
  Claim C7. For every SA sampling \<open>X\<close>, serializing \<open>X\<close> and loading from the bytes written
  yields an instance \<open>X'\<close> that is equal to \<open>X\<close> by value equality and that answers
  \<open>is_sampled\<close> and the access operator as \<open>X\<close> does, at every index. The \<open>serialize\<close> and
  \<open>load\<close> of the primitives are parameters that read back what they wrote.
\<close>

theorem serialize_load_round_trip:
  assumes "primitives_round_trip P"
  shows "sa_order_load P (sa_order_serialize P S) = Some (S, [])
       \<and> (\<exists>X'. text_order_load P (text_order_serialize P X) = Some (X', [])
              \<and> text_order_equal X X' \<and> X' = X
              \<and> (\<forall>i. text_order_is_sampled X' i = text_order_is_sampled X i)
              \<and> (\<forall>i. text_order_get d X' i = text_order_get d X i))
       \<and> (\<exists>Y'. bwt_load P (bwt_serialize P Y) = Some (Y', [])
              \<and> bwt_equal Y Y' \<and> Y' = Y
              \<and> (\<forall>i. bwt_is_sampled Y' i = bwt_is_sampled Y i)
              \<and> (\<forall>i. bwt_get d Y' i = bwt_get d Y i))
       \<and> (\<exists>Z'. fuzzy_load P (fuzzy_serialize P Z) = Some (Z', [])
              \<and> fuzzy_equal Z Z' \<and> Z' = Z
              \<and> (\<forall>i. fuzzy_is_sampled Z' i = fuzzy_is_sampled Z i)
              \<and> (\<forall>i. fuzzy_get Z' i = fuzzy_get Z i))"
  using serialize_load_all [OF assms] .

theorem serialize_load_round_trip_witness:
  "sa_order_load example_primitives (sa_order_serialize example_primitives \<lparr>iv_width = 2, iv_data = [2, 1]\<rparr>) = Some (\<lparr>iv_width = 2, iv_data = [2, 1]\<rparr>, [])
       \<and> (\<exists>X'. text_order_load example_primitives (text_order_serialize example_primitives \<lparr>tos_samples = \<lparr>iv_width = 1, iv_data = [1, 0]\<rparr>, tos_marked = [True, True, False]\<rparr>) = Some (X', [])
              \<and> text_order_equal \<lparr>tos_samples = \<lparr>iv_width = 1, iv_data = [1, 0]\<rparr>, tos_marked = [True, True, False]\<rparr> X' \<and> X' = \<lparr>tos_samples = \<lparr>iv_width = 1, iv_data = [1, 0]\<rparr>, tos_marked = [True, True, False]\<rparr>
              \<and> (\<forall>i. text_order_is_sampled X' i = text_order_is_sampled \<lparr>tos_samples = \<lparr>iv_width = 1, iv_data = [1, 0]\<rparr>, tos_marked = [True, True, False]\<rparr> i)
              \<and> (\<forall>i. text_order_get 2 X' i = text_order_get 2 \<lparr>tos_samples = \<lparr>iv_width = 1, iv_data = [1, 0]\<rparr>, tos_marked = [True, True, False]\<rparr> i))
       \<and> (\<exists>Y'. bwt_load example_primitives (bwt_serialize example_primitives \<lparr>bws_samples = \<lparr>iv_width = 2, iv_data = [2, 1]\<rparr>, bws_marked = [True, True, False]\<rparr>) = Some (Y', [])
              \<and> bwt_equal \<lparr>bws_samples = \<lparr>iv_width = 2, iv_data = [2, 1]\<rparr>, bws_marked = [True, True, False]\<rparr> Y' \<and> Y' = \<lparr>bws_samples = \<lparr>iv_width = 2, iv_data = [2, 1]\<rparr>, bws_marked = [True, True, False]\<rparr>
              \<and> (\<forall>i. bwt_is_sampled Y' i = bwt_is_sampled \<lparr>bws_samples = \<lparr>iv_width = 2, iv_data = [2, 1]\<rparr>, bws_marked = [True, True, False]\<rparr> i)
              \<and> (\<forall>i. bwt_get 2 Y' i = bwt_get 2 \<lparr>bws_samples = \<lparr>iv_width = 2, iv_data = [2, 1]\<rparr>, bws_marked = [True, True, False]\<rparr> i))
       \<and> (\<exists>Z'. fuzzy_load example_primitives (fuzzy_serialize example_primitives \<lparr>fz_marked_sa = [False, True, True], fz_marked_isa = [True, False, True], fz_inv_perm = [0, 1]\<rparr>) = Some (Z', [])
              \<and> fuzzy_equal \<lparr>fz_marked_sa = [False, True, True], fz_marked_isa = [True, False, True], fz_inv_perm = [0, 1]\<rparr> Z' \<and> Z' = \<lparr>fz_marked_sa = [False, True, True], fz_marked_isa = [True, False, True], fz_inv_perm = [0, 1]\<rparr>
              \<and> (\<forall>i. fuzzy_is_sampled Z' i = fuzzy_is_sampled \<lparr>fz_marked_sa = [False, True, True], fz_marked_isa = [True, False, True], fz_inv_perm = [0, 1]\<rparr> i)
              \<and> (\<forall>i. fuzzy_get Z' i = fuzzy_get \<lparr>fz_marked_sa = [False, True, True], fz_marked_isa = [True, False, True], fz_inv_perm = [0, 1]\<rparr> i))"
  by (rule serialize_load_round_trip [OF example_primitives_round_trip])


end
